theory Spec2Isabelle
  imports
    Main
    "HOL-Library.Char_ord"
    "HOL-Library.List_Lexorder"
    "HOL-Library.Multiset"
    "HOL-Library.Product_Lexorder"
begin

section \<open>Red-black tree (class RBTree of library\_catalog.py)\<close>

text \<open>
  The source keeps the tree as heap objects \<^verbatim>\<open>RBNode(key, value, left, right, parent, color)\<close>
  linked through a single sentinel \<^verbatim>\<open>NIL\<close> (colour BLACK, its own children).  The model
  keeps the same nodes as a value: \<open>NIL\<close> is the sentinel, \<open>Node l k v c r\<close> a real node with
  its \<^verbatim>\<open>left\<close>, \<^verbatim>\<open>key\<close>, \<^verbatim>\<open>value\<close>, \<^verbatim>\<open>color\<close> and \<^verbatim>\<open>right\<close> fields.

  A node reference (\<^verbatim>\<open>x\<close>, \<^verbatim>\<open>y\<close>, \<^verbatim>\<open>z\<close>, \<^verbatim>\<open>w\<close> in the source) is a location: the subtree
  rooted at the node together with the list of its ancestors, nearest first.  Each
  ancestor is a frame holding the fields of that ancestor other than the child the
  location came from, so \<^verbatim>\<open>x.parent\<close> is the head of the list, \<^verbatim>\<open>x == x.parent.left\<close>
  is "the head is a \<open>LeftOf\<close> frame", and \<^verbatim>\<open>x.parent == self.NIL\<close> (that is
  \<^verbatim>\<open>x == self.root\<close>) is "the list is empty".  The sentinel's own \<^verbatim>\<open>parent\<close> field, which
  \<^verbatim>\<open>_transplant\<close> and \<^verbatim>\<open>delete\<close> assign so that \<^verbatim>\<open>_delete_fixup\<close> can start from a
  sentinel, is the ancestor list of a location whose subtree is \<open>NIL\<close>.

  The code never tests whether a node it writes to is the sentinel.  Where it would
  write a field of the sentinel other than \<^verbatim>\<open>parent\<close> (rotating around a node whose
  child is the sentinel, recolouring a sentinel sibling, recolouring the parent of a red
  root), the sentinel stops being the black, childless leaf that this model represents:
  the model returns \<open>None\<close> there, and the theorems show those branches are not reached.
\<close>

datatype color = RED | BLACK

datatype ('k, 'v) tree =
    NIL
  | Node "('k, 'v) tree" 'k 'v color "('k, 'v) tree"

datatype ('k, 'v) frame =
    LeftOf 'k 'v color "('k, 'v) tree"
  | RightOf "('k, 'v) tree" 'k 'v color

type_synonym ('k, 'v) loc = "('k, 'v) tree \<times> ('k, 'v) frame list"

text \<open>\<^verbatim>\<open>x.color\<close>; the sentinel is BLACK.\<close>

fun color_of :: "('k, 'v) tree \<Rightarrow> color" where
  "color_of NIL = BLACK"
| "color_of (Node l k v c r) = c"

text \<open>\<^verbatim>\<open>x.color = c\<close> on a real node; on the sentinel only \<^verbatim>\<open>x.color = BLACK\<close> occurs at
  the places where this is used, which leaves it as it is.\<close>

fun paint :: "color \<Rightarrow> ('k, 'v) tree \<Rightarrow> ('k, 'v) tree" where
  "paint c NIL = NIL"
| "paint c (Node l k v c' r) = Node l k v c r"

fun frame_color :: "('k, 'v) frame \<Rightarrow> color" where
  "frame_color (LeftOf k v c r) = c"
| "frame_color (RightOf l k v c) = c"

text \<open>The whole tree seen from a location: follow the parent links up to the root.\<close>

fun rebuild :: "('k, 'v) tree \<Rightarrow> ('k, 'v) frame list \<Rightarrow> ('k, 'v) tree" where
  "rebuild t [] = t"
| "rebuild t (LeftOf k v c r # path) = rebuild (Node t k v c r) path"
| "rebuild t (RightOf l k v c # path) = rebuild (Node l k v c t) path"

subsection \<open>insert and \_insert\_fixup\<close>

text \<open>
  \<^verbatim>\<open>_insert_fixup(z)\<close>: \<open>z\<close> is the node \<open>Node zl zk zv zc zr\<close>, \<open>path\<close> its ancestors.
  \<^item> no parent, or a BLACK parent: the loop ends and \<^verbatim>\<open>self.root.color = BLACK\<close>;
  \<^item> a RED parent that is the root: \<^verbatim>\<open>z.parent.parent\<close> is the sentinel, whose colour and
    children the loop body then writes: \<open>None\<close>;
  \<^item> parent is a left child, uncle \<open>y\<close> RED (case 1): recolour, continue from the grandparent;
  \<^item> uncle BLACK: case 2 (\<open>z\<close> a right child: \<^verbatim>\<open>z = z.parent; _left_rotate(z)\<close>) then case 3
    (\<^verbatim>\<open>z.parent.color = BLACK; z.parent.parent.color = RED; _right_rotate(z.parent.parent)\<close>),
    after which \<^verbatim>\<open>z.parent\<close> is BLACK and the loop ends;
  \<^item> the symmetric cases when the parent is a right child.
\<close>

fun insert_fixup :: "('k, 'v) tree \<Rightarrow> ('k, 'v) frame list \<Rightarrow> ('k, 'v) tree option" where
  "insert_fixup NIL path = None"
| "insert_fixup (Node zl zk zv zc zr) [] = Some (Node zl zk zv BLACK zr)"
| "insert_fixup (Node zl zk zv zc zr) [p] =
     (if frame_color p = RED then None
      else Some (paint BLACK (rebuild (Node zl zk zv zc zr) [p])))"
| "insert_fixup (Node zl zk zv zc zr) (LeftOf pk pv pc pr # LeftOf gk gv gc y # path) =
     (if pc = RED then
        (case y of
           Node yl yk yv RED yr \<Rightarrow>
             insert_fixup
               (Node (Node (Node zl zk zv zc zr) pk pv BLACK pr) gk gv RED (Node yl yk yv BLACK yr))
               path
         | _ \<Rightarrow>
             Some (paint BLACK (rebuild
               (Node (Node zl zk zv zc zr) pk pv BLACK (Node pr gk gv RED y)) path)))
      else Some (paint BLACK (rebuild (Node zl zk zv zc zr)
                   (LeftOf pk pv pc pr # LeftOf gk gv gc y # path))))"
| "insert_fixup (Node zl zk zv zc zr) (RightOf pl pk pv pc # LeftOf gk gv gc y # path) =
     (if pc = RED then
        (case y of
           Node yl yk yv RED yr \<Rightarrow>
             insert_fixup
               (Node (Node pl pk pv BLACK (Node zl zk zv zc zr)) gk gv RED (Node yl yk yv BLACK yr))
               path
         | _ \<Rightarrow>
             Some (paint BLACK (rebuild
               (Node (Node pl pk pv RED zl) zk zv BLACK (Node zr gk gv RED y)) path)))
      else Some (paint BLACK (rebuild (Node zl zk zv zc zr)
                   (RightOf pl pk pv pc # LeftOf gk gv gc y # path))))"
| "insert_fixup (Node zl zk zv zc zr) (RightOf pl pk pv pc # RightOf y gk gv gc # path) =
     (if pc = RED then
        (case y of
           Node yl yk yv RED yr \<Rightarrow>
             insert_fixup
               (Node (Node yl yk yv BLACK yr) gk gv RED (Node pl pk pv BLACK (Node zl zk zv zc zr)))
               path
         | _ \<Rightarrow>
             Some (paint BLACK (rebuild
               (Node (Node y gk gv RED pl) pk pv BLACK (Node zl zk zv zc zr)) path)))
      else Some (paint BLACK (rebuild (Node zl zk zv zc zr)
                   (RightOf pl pk pv pc # RightOf y gk gv gc # path))))"
| "insert_fixup (Node zl zk zv zc zr) (LeftOf pk pv pc pr # RightOf y gk gv gc # path) =
     (if pc = RED then
        (case y of
           Node yl yk yv RED yr \<Rightarrow>
             insert_fixup
               (Node (Node yl yk yv BLACK yr) gk gv RED (Node (Node zl zk zv zc zr) pk pv BLACK pr))
               path
         | _ \<Rightarrow>
             Some (paint BLACK (rebuild
               (Node (Node y gk gv RED zl) zk zv BLACK (Node zr pk pv RED pr)) path)))
      else Some (paint BLACK (rebuild (Node zl zk zv zc zr)
                   (LeftOf pk pv pc pr # RightOf y gk gv gc # path))))"

text \<open>
  \<^verbatim>\<open>insert(key, value)\<close>: the descent \<^verbatim>\<open>while x != self.NIL\<close>.  On an equal key the value
  is replaced in the node found and the method returns at once; at the sentinel the new
  RED node is linked under the last node visited and \<^verbatim>\<open>_insert_fixup\<close> runs.
\<close>

fun insert_loop ::
  "'k::linorder \<Rightarrow> 'v \<Rightarrow> ('k, 'v) tree \<Rightarrow> ('k, 'v) frame list \<Rightarrow> ('k, 'v) tree option" where
  "insert_loop key val NIL path = insert_fixup (Node NIL key val RED NIL) path"
| "insert_loop key val (Node l k v c r) path =
     (if key < k then insert_loop key val l (LeftOf k v c r # path)
      else if key > k then insert_loop key val r (RightOf l k v c # path)
      else Some (rebuild (Node l k val c r) path))"

definition insert :: "'k::linorder \<Rightarrow> 'v \<Rightarrow> ('k, 'v) tree \<Rightarrow> ('k, 'v) tree option" where
  "insert key val root = insert_loop key val root []"

subsection \<open>search\_node, search, \_minimum, \_successor, inorder, lower\_bound\_node, size\<close>

text \<open>\<^verbatim>\<open>search_node(key)\<close>: the node with that key as a location, or \<open>None\<close>.\<close>

fun search_node_loop ::
  "'k::linorder \<Rightarrow> ('k, 'v) tree \<Rightarrow> ('k, 'v) frame list \<Rightarrow> ('k, 'v) loc option" where
  "search_node_loop key NIL path = None"
| "search_node_loop key (Node l k v c r) path =
     (if key \<noteq> k then
        (if key < k then search_node_loop key l (LeftOf k v c r # path)
         else search_node_loop key r (RightOf l k v c # path))
      else Some (Node l k v c r, path))"

definition search_node :: "('k::linorder, 'v) tree \<Rightarrow> 'k \<Rightarrow> ('k, 'v) loc option" where
  "search_node root key = search_node_loop key root []"

text \<open>\<^verbatim>\<open>n.value\<close> of a node reference.\<close>

fun value_of :: "('k, 'v) loc \<Rightarrow> 'v option" where
  "value_of (NIL, path) = None"
| "value_of (Node l k v c r, path) = Some v"

definition search :: "('k::linorder, 'v) tree \<Rightarrow> 'k \<Rightarrow> 'v option" where
  "search root key = (case search_node root key of None \<Rightarrow> None | Some n \<Rightarrow> value_of n)"

text \<open>\<^verbatim>\<open>_minimum(x)\<close>: \<^verbatim>\<open>while x.left != self.NIL: x = x.left\<close>.\<close>

fun minimum :: "('k, 'v) tree \<Rightarrow> ('k, 'v) frame list \<Rightarrow> ('k, 'v) loc" where
  "minimum NIL path = (NIL, path)"
| "minimum (Node l k v c r) path =
     (if l \<noteq> NIL then minimum l (LeftOf k v c r # path) else (Node l k v c r, path))"

text \<open>The loop of \<^verbatim>\<open>_successor\<close>: \<^verbatim>\<open>while y != self.NIL and x == y.right: x = y; y = y.parent\<close>,
  with \<open>y\<close> the head of the path.\<close>

fun climb :: "('k, 'v) tree \<Rightarrow> ('k, 'v) frame list \<Rightarrow> ('k, 'v) loc option" where
  "climb x [] = None"
| "climb x (RightOf l k v c # path) = climb (Node l k v c x) path"
| "climb x (LeftOf k v c r # path) = Some (Node x k v c r, path)"

fun successor :: "('k, 'v) loc \<Rightarrow> ('k, 'v) loc option" where
  "successor (NIL, path) = climb NIL path"
| "successor (Node l k v c r, path) =
     (if r \<noteq> NIL then Some (minimum r (RightOf l k v c # path))
      else climb (Node l k v c r) path)"

text \<open>\<^verbatim>\<open>inorder()\<close>: the (key, value) pairs the generator yields, in order.\<close>

fun inorder :: "('k, 'v) tree \<Rightarrow> ('k \<times> 'v) list" where
  "inorder NIL = []"
| "inorder (Node l k v c r) = inorder l @ (k, v) # inorder r"

text \<open>\<^verbatim>\<open>lower_bound_node(key)\<close>: \<open>lb\<close> is the best node seen so far.\<close>

fun lower_bound_loop ::
  "'k::linorder \<Rightarrow> ('k, 'v) tree \<Rightarrow> ('k, 'v) frame list \<Rightarrow> ('k, 'v) loc option
     \<Rightarrow> ('k, 'v) loc option" where
  "lower_bound_loop key NIL path lb = lb"
| "lower_bound_loop key (Node l k v c r) path lb =
     (if k \<ge> key then lower_bound_loop key l (LeftOf k v c r # path) (Some (Node l k v c r, path))
      else lower_bound_loop key r (RightOf l k v c # path) lb)"

definition lower_bound_node :: "('k::linorder, 'v) tree \<Rightarrow> 'k \<Rightarrow> ('k, 'v) loc option" where
  "lower_bound_node root key = lower_bound_loop key root [] None"

definition size_rbt :: "('k, 'v) tree \<Rightarrow> nat" where
  "size_rbt root = length (inorder root)"

subsection \<open>delete and \_delete\_fixup\<close>

text \<open>
  Cases 3 and 4 of \<^verbatim>\<open>_delete_fixup\<close> for \<open>x\<close> a left child with parent \<open>(pk, pv, pc)\<close> and
  sibling \<open>w\<close>, of which one child is RED.  Case 3 (\<^verbatim>\<open>w.right.color == BLACK\<close>) recolours and
  rotates \<open>w\<close> to the right, so that the new sibling is the former \<^verbatim>\<open>w.left\<close>; case 4 gives
  the sibling the parent's colour, blackens the parent and \<^verbatim>\<open>w.right\<close>, rotates the
  parent to the left and sets \<^verbatim>\<open>x = self.root\<close>, which ends the loop; the final
  \<^verbatim>\<open>x.color = BLACK\<close> then blackens the root.
\<close>

fun delete_case34_left ::
  "('k, 'v) tree \<Rightarrow> 'k \<Rightarrow> 'v \<Rightarrow> color \<Rightarrow> ('k, 'v) tree \<Rightarrow> ('k, 'v) frame list
     \<Rightarrow> ('k, 'v) tree option" where
  "delete_case34_left x pk pv pc NIL path = None"
| "delete_case34_left x pk pv pc (Node wl wk wv wc wr) path =
     (if color_of wr = BLACK then
        (case wl of
           NIL \<Rightarrow> None
         | Node a lk lv lc b \<Rightarrow>
             Some (paint BLACK (rebuild
               (Node (Node x pk pv BLACK a) lk lv pc (Node b wk wv BLACK wr)) path)))
      else
        Some (paint BLACK (rebuild
          (Node (Node x pk pv BLACK wl) wk wv pc (paint BLACK wr)) path)))"

fun delete_case34_right ::
  "('k, 'v) tree \<Rightarrow> 'k \<Rightarrow> 'v \<Rightarrow> color \<Rightarrow> ('k, 'v) tree \<Rightarrow> ('k, 'v) frame list
     \<Rightarrow> ('k, 'v) tree option" where
  "delete_case34_right x pk pv pc NIL path = None"
| "delete_case34_right x pk pv pc (Node wl wk wv wc wr) path =
     (if color_of wl = BLACK then
        (case wr of
           NIL \<Rightarrow> None
         | Node a rk rv rc b \<Rightarrow>
             Some (paint BLACK (rebuild
               (Node (Node wl wk wv BLACK a) rk rv pc (Node b pk pv BLACK x)) path)))
      else
        Some (paint BLACK (rebuild
          (Node (paint BLACK wl) wk wv pc (Node wr pk pv BLACK x)) path)))"

text \<open>
  \<^verbatim>\<open>_delete_fixup(x)\<close>: \<open>x\<close> may be the sentinel; \<open>path\<close> is what its \<^verbatim>\<open>parent\<close> chain reads.
  \<^item> \<open>x\<close> is the root, or RED: the loop ends, \<^verbatim>\<open>x.color = BLACK\<close>;
  \<^item> the sibling \<open>w\<close> is the sentinel: the body recolours it (\<^verbatim>\<open>w.color = RED\<close>): \<open>None\<close>;
  \<^item> case 1, \<open>w\<close> RED: \<open>w\<close> BLACK, parent RED, rotate the parent towards \<open>x\<close>; the new
    sibling is the former inner child of \<open>w\<close>, and the same pass goes on with it;
  \<^item> case 2, both children of \<open>w\<close> BLACK: \<open>w\<close> RED, continue from the parent;
  \<^item> otherwise cases 3 and 4 above.
\<close>

function delete_fixup :: "('k, 'v) tree \<Rightarrow> ('k, 'v) frame list \<Rightarrow> ('k, 'v) tree option" where
  "delete_fixup x [] = Some (paint BLACK x)"
| "delete_fixup x (LeftOf pk pv pc w # path) =
     (if color_of x = RED then Some (rebuild (paint BLACK x) (LeftOf pk pv pc w # path))
      else
        (case w of
           NIL \<Rightarrow> None
         | Node wl wk wv RED wr \<Rightarrow>
             (case wl of
                NIL \<Rightarrow> None
              | Node a lk lv lc b \<Rightarrow>
                  if color_of a = BLACK \<and> color_of b = BLACK then
                    delete_fixup (Node x pk pv RED (Node a lk lv RED b))
                      (LeftOf wk wv BLACK wr # path)
                  else
                    delete_case34_left x pk pv RED (Node a lk lv lc b)
                      (LeftOf wk wv BLACK wr # path))
         | Node wl wk wv BLACK wr \<Rightarrow>
             if color_of wl = BLACK \<and> color_of wr = BLACK then
               delete_fixup (Node x pk pv pc (Node wl wk wv RED wr)) path
             else delete_case34_left x pk pv pc (Node wl wk wv BLACK wr) path))"
| "delete_fixup x (RightOf w pk pv pc # path) =
     (if color_of x = RED then Some (rebuild (paint BLACK x) (RightOf w pk pv pc # path))
      else
        (case w of
           NIL \<Rightarrow> None
         | Node wl wk wv RED wr \<Rightarrow>
             (case wr of
                NIL \<Rightarrow> None
              | Node a rk rv rc b \<Rightarrow>
                  if color_of b = BLACK \<and> color_of a = BLACK then
                    delete_fixup (Node (Node a rk rv RED b) pk pv RED x)
                      (RightOf wl wk wv BLACK # path)
                  else
                    delete_case34_right x pk pv RED (Node a rk rv rc b)
                      (RightOf wl wk wv BLACK # path))
         | Node wl wk wv BLACK wr \<Rightarrow>
             if color_of wr = BLACK \<and> color_of wl = BLACK then
               delete_fixup (Node (Node wl wk wv RED wr) pk pv pc x) path
             else delete_case34_right x pk pv pc (Node wl wk wv BLACK wr) path))"
  by pat_completeness auto

termination
  by (relation "measure (\<lambda>(x, path). 2 * length path + (if color_of x = RED then 0 else 1))") auto

text \<open>
  The tail of \<^verbatim>\<open>delete\<close>: \<open>x\<close> has taken the place of the node that was unlinked, whose
  colour was \<open>y_original_color\<close>.
\<close>

definition delete_finish ::
  "color \<Rightarrow> ('k, 'v) tree \<Rightarrow> ('k, 'v) frame list \<Rightarrow> (bool \<times> ('k, 'v) tree) option" where
  "delete_finish y_original_color x path =
     (if y_original_color = BLACK then
        (case delete_fixup x path of None \<Rightarrow> None | Some t \<Rightarrow> Some (True, t))
      else Some (True, rebuild x path))"

text \<open>
  \<^verbatim>\<open>delete(key)\<close>.  With \<open>z\<close> the node found:
  \<^item> \<^verbatim>\<open>z.left == NIL\<close>: \<open>x = z.right\<close> takes the place of \<open>z\<close> (\<^verbatim>\<open>_transplant\<close>);
  \<^item> \<^verbatim>\<open>z.right == NIL\<close>: \<open>x = z.left\<close> takes the place of \<open>z\<close>;
  \<^item> otherwise \<open>y = _minimum(z.right)\<close>, reached from \<^verbatim>\<open>z.right\<close> through the frames \<open>q\<close>
    (\<open>q = []\<close> is \<^verbatim>\<open>y.parent == z\<close>), \<open>x = y.right\<close> takes the place of \<open>y\<close>, and \<open>y\<close> takes the
    place, the children and the colour of \<open>z\<close>: the ancestors of \<open>x\<close> are then \<open>q\<close>, the
    node \<open>y\<close> in its new place, and the ancestors of \<open>z\<close>.
\<close>

definition delete :: "('k::linorder, 'v) tree \<Rightarrow> 'k \<Rightarrow> (bool \<times> ('k, 'v) tree) option" where
  "delete root key =
     (case search_node root key of
        None \<Rightarrow> Some (False, root)
      | Some (NIL, path) \<Rightarrow> None
      | Some (Node zl zk zv zc zr, path) \<Rightarrow>
          if zl = NIL then delete_finish zc zr path
          else if zr = NIL then delete_finish zc zl path
          else
            (case minimum zr [] of
               (NIL, q) \<Rightarrow> None
             | (Node yl yk yv yc yr, q) \<Rightarrow>
                 delete_finish yc yr (q @ RightOf zl yk yv zc # path)))"

section \<open>Book and LibraryCatalog\<close>

text \<open>
  The dataclass \<^verbatim>\<open>Book\<close>.  Identifiers are Python integers (unbounded); titles are taken
  as ASCII text, on which \<^verbatim>\<open>str.lower()\<close> maps \<open>A\<close>..\<open>Z\<close> to \<open>a\<close>..\<open>z\<close> and the order of
  \<^verbatim>\<open>str\<close> is the lexicographic order of the characters.  The keys of \<^verbatim>\<open>by_title\<close> are
  Python tuples \<^verbatim>\<open>(title_lower, book_id)\<close>, ordered lexicographically.
\<close>

record book =
  book_id :: int
  title :: string
  author :: string
  year :: int
  copies :: int

definition lower_char :: "char \<Rightarrow> char" where
  "lower_char c =
     (if CHR ''A'' \<le> c \<and> c \<le> CHR ''Z'' then char_of (of_char c + (32::nat)) else c)"

definition lower :: "string \<Rightarrow> string" where
  "lower s = map lower_char s"

text \<open>\<^verbatim>\<open>sys.maxsize\<close> of a 64-bit CPython.\<close>

definition maxsize :: int where
  "maxsize = 2 ^ 63 - 1"

record catalog =
  by_id :: "(int, book) tree"
  by_title :: "(string \<times> int, book) tree"

text \<open>\<^verbatim>\<open>LibraryCatalog()\<close>; also what \<^verbatim>\<open>clear_catalog\<close> of app.py and the reset at the start
  of \<^verbatim>\<open>load_from_file\<close> leave.\<close>

definition new_catalog :: catalog where
  "new_catalog = \<lparr>by_id = NIL, by_title = NIL\<rparr>"

text \<open>\<^verbatim>\<open>for k in to_delete: self.by_title.delete(k)\<close>.\<close>

fun delete_keys :: "'k::linorder list \<Rightarrow> ('k, 'v) tree \<Rightarrow> ('k, 'v) tree option" where
  "delete_keys [] t = Some t"
| "delete_keys (k # ks) t =
     (case delete t k of None \<Rightarrow> None | Some (removed, t') \<Rightarrow> delete_keys ks t')"

definition remove_title_nodes_for_id ::
  "int \<Rightarrow> (string \<times> int, book) tree \<Rightarrow> (string \<times> int, book) tree option" where
  "remove_title_nodes_for_id bid t =
     delete_keys (filter (\<lambda>key. snd key = bid) (map fst (inorder t))) t"

text \<open>\<^verbatim>\<open>existing.value = book\<close> on the node found by \<^verbatim>\<open>search_node\<close>.\<close>

fun set_value :: "'v \<Rightarrow> ('k, 'v) loc \<Rightarrow> ('k, 'v) tree" where
  "set_value val (NIL, path) = rebuild NIL path"
| "set_value val (Node l k v c r, path) = rebuild (Node l k val c r) path"

definition add_book :: "book \<Rightarrow> catalog \<Rightarrow> (string \<times> catalog) option" where
  "add_book b cat =
     (case search_node (by_id cat) (book_id b) of
        Some existing \<Rightarrow>
          (case remove_title_nodes_for_id (book_id b) (by_title cat) of
             None \<Rightarrow> None
           | Some t1 \<Rightarrow>
               (case insert (lower (title b), book_id b) b t1 of
                  None \<Rightarrow> None
                | Some t2 \<Rightarrow>
                    Some (''updated'', \<lparr>by_id = set_value b existing, by_title = t2\<rparr>)))
      | None \<Rightarrow>
          (case insert (book_id b) b (by_id cat) of
             None \<Rightarrow> None
           | Some i1 \<Rightarrow>
               (case insert (lower (title b), book_id b) b (by_title cat) of
                  None \<Rightarrow> None
                | Some t1 \<Rightarrow> Some (''inserted'', \<lparr>by_id = i1, by_title = t1\<rparr>))))"

definition delete_by_id :: "int \<Rightarrow> catalog \<Rightarrow> (bool \<times> catalog) option" where
  "delete_by_id bid cat =
     (case search_node (by_id cat) bid of
        None \<Rightarrow> Some (False, cat)
      | Some book_node \<Rightarrow>
          (case value_of book_node of
             None \<Rightarrow> None
           | Some b \<Rightarrow>
               (case delete (by_id cat) bid of
                  None \<Rightarrow> None
                | Some (r1, i1) \<Rightarrow>
                    (case delete (by_title cat) (lower (title b), book_id b) of
                       None \<Rightarrow> None
                     | Some (r2, t1) \<Rightarrow> Some (True, \<lparr>by_id = i1, by_title = t1\<rparr>)))))"

definition search_by_id :: "catalog \<Rightarrow> int \<Rightarrow> book option" where
  "search_by_id cat bid = search (by_id cat) bid"

definition list_all_by_id :: "catalog \<Rightarrow> book list" where
  "list_all_by_id cat = map snd (inorder (by_id cat))"

definition list_all_by_title :: "catalog \<Rightarrow> book list" where
  "list_all_by_title cat = map snd (inorder (by_title cat))"

subsection \<open>The title scans\<close>

text \<open>
  How many nodes follow a location in key order; each step of \<^verbatim>\<open>_successor\<close> lowers it,
  which is why the loops \<^verbatim>\<open>while node:\<close> of the two title searches end.
\<close>

fun nodes_after :: "('k, 'v) frame list \<Rightarrow> nat" where
  "nodes_after [] = 0"
| "nodes_after (LeftOf k v c r # path) = Suc (length (inorder r)) + nodes_after path"
| "nodes_after (RightOf l k v c # path) = nodes_after path"

fun remaining :: "('k, 'v) loc option \<Rightarrow> nat" where
  "remaining None = 0"
| "remaining (Some (NIL, path)) = Suc (nodes_after path)"
| "remaining (Some (Node l k v c r, path)) = Suc (length (inorder r) + nodes_after path)"

text \<open>
  The loop of \<^verbatim>\<open>search_by_title_exact\<close>: \<open>node\<close> is \<open>None\<close> or a node reference, \<open>res\<close> the
  list built so far.  A reference to the sentinel is never produced by
  \<^verbatim>\<open>lower_bound_node\<close> or \<^verbatim>\<open>_successor\<close>; the loop is written to stop there.
\<close>

function exact_loop ::
  "string \<Rightarrow> (string \<times> int, book) loc option \<Rightarrow> book list \<Rightarrow> book list" where
  "exact_loop tkey None res = res"
| "exact_loop tkey (Some (NIL, path)) res = res"
| "exact_loop tkey (Some (Node l k v c r, path)) res =
     (if fst k = tkey then exact_loop tkey (successor (Node l k v c r, path)) (res @ [v])
      else res)"
  by pat_completeness auto

definition search_by_title_exact :: "catalog \<Rightarrow> string \<Rightarrow> book list" where
  "search_by_title_exact cat ttl =
     exact_loop (lower ttl) (lower_bound_node (by_title cat) (lower ttl, - maxsize)) []"

text \<open>\<^verbatim>\<open>key[0].startswith(p)\<close>.\<close>

definition startswith :: "string \<Rightarrow> string \<Rightarrow> bool" where
  "startswith s p = (take (length p) s = p)"

function prefix_loop ::
  "string \<Rightarrow> (string \<times> int, book) loc option \<Rightarrow> book list \<Rightarrow> book list" where
  "prefix_loop p None res = res"
| "prefix_loop p (Some (NIL, path)) res = res"
| "prefix_loop p (Some (Node l k v c r, path)) res =
     (if startswith (fst k) p then prefix_loop p (successor (Node l k v c r, path)) (res @ [v])
      else res)"
  by pat_completeness auto

definition search_by_title_prefix :: "catalog \<Rightarrow> string \<Rightarrow> book list" where
  "search_by_title_prefix cat pre =
     prefix_loop (lower pre) (lower_bound_node (by_title cat) (lower pre, - maxsize)) []"

subsection \<open>Bulk load\<close>

text \<open>
  \<^verbatim>\<open>load_from_file\<close> reads a JSON array; the model starts from the parsed array.  A JSON
  value as \<^verbatim>\<open>json.load\<close> returns it is \<^verbatim>\<open>None\<close>, a \<^verbatim>\<open>bool\<close>, an \<^verbatim>\<open>int\<close>, a \<^verbatim>\<open>float\<close> (kept
  as its literal, which may also be \<^verbatim>\<open>NaN\<close> or \<^verbatim>\<open>Infinity\<close>), a \<^verbatim>\<open>str\<close>, a \<^verbatim>\<open>list\<close> or a
  \<^verbatim>\<open>dict\<close> (its items).
\<close>

datatype json =
    JNull
  | JBool bool
  | JInt int
  | JFloat string
  | JStr string
  | JList "json list"
  | JDict "(string \<times> json) list"

text \<open>
  An element of the array is a JSON object or a value of another kind.  Of an object, the
  five keys that \<^verbatim>\<open>from_dict\<close> reads are kept; each of them may be absent.  The values of
  \<^verbatim>\<open>title\<close>, \<^verbatim>\<open>year\<close> and \<^verbatim>\<open>copies\<close> are arbitrary JSON values.  The value of \<^verbatim>\<open>book_id\<close> is
  an integer and that of \<^verbatim>\<open>author\<close> a text: an identifier of another type changes what the
  comparisons of the trees do, and an author of another type is stored as it is, which the
  record \<open>book\<close> cannot hold; arrays with such values are outside this model.
\<close>

record book_dict =
  d_book_id :: "int option"
  d_title :: "json option"
  d_author :: "string option"
  d_year :: "json option"
  d_copies :: "json option"

datatype element = Object book_dict | NotObject

text \<open>The exceptions that \<^verbatim>\<open>from_dict\<close> and \<^verbatim>\<open>add_book\<close> raise on such an array.\<close>

datatype py_error = KeyError string | TypeError | ValueError | OverflowError | AttributeError

text \<open>
  \<^verbatim>\<open>int(x)\<close> on a JSON value.  \<^verbatim>\<open>None\<close>, a list and a dict raise \<^verbatim>\<open>TypeError\<close>; a bool gives
  0 or 1; an int is returned.  On a str (which \<^verbatim>\<open>int\<close> parses, or rejects with
  \<^verbatim>\<open>ValueError\<close>) and on a float (which it truncates, or rejects with \<^verbatim>\<open>ValueError\<close> for
  \<^verbatim>\<open>NaN\<close> and \<^verbatim>\<open>OverflowError\<close> for \<^verbatim>\<open>Infinity\<close>) the result is that of Python's builtin,
  taken here as the parameter \<open>conv\<close>: every property below holds for every \<open>conv\<close>.
\<close>

fun py_int :: "(json \<Rightarrow> py_error + int) \<Rightarrow> json \<Rightarrow> py_error + int" where
  "py_int conv JNull = Inl TypeError"
| "py_int conv (JBool b) = Inr (if b then 1 else 0)"
| "py_int conv (JInt n) = Inr n"
| "py_int conv (JFloat f) = conv (JFloat f)"
| "py_int conv (JStr s) = conv (JStr s)"
| "py_int conv (JList xs) = Inl TypeError"
| "py_int conv (JDict kvs) = Inl TypeError"

text \<open>
  A \<^verbatim>\<open>Book\<close> as \<^verbatim>\<open>from_dict\<close> builds it: the dataclass checks no types, so its \<^verbatim>\<open>title\<close> is
  whatever JSON value the object has under that key.  \<^verbatim>\<open>d["book_id"]\<close> raises \<^verbatim>\<open>TypeError\<close>
  on a value that is not a dict and \<^verbatim>\<open>KeyError\<close> on a dict without the key; the arguments
  are evaluated in the order \<^verbatim>\<open>d["book_id"]\<close>, \<^verbatim>\<open>d["title"]\<close>, \<^verbatim>\<open>d.get("author", "")\<close>,
  \<^verbatim>\<open>int(d.get("year", 0))\<close>, \<^verbatim>\<open>int(d.get("copies", 1))\<close>.
\<close>

record raw_book =
  r_book_id :: int
  r_title :: json
  r_author :: string
  r_year :: int
  r_copies :: int

fun from_dict :: "(json \<Rightarrow> py_error + int) \<Rightarrow> element \<Rightarrow> py_error + raw_book" where
  "from_dict conv NotObject = Inl TypeError"
| "from_dict conv (Object d) =
     (case d_book_id d of
        None \<Rightarrow> Inl (KeyError ''book_id'')
      | Some i \<Rightarrow>
          (case d_title d of
             None \<Rightarrow> Inl (KeyError ''title'')
           | Some t \<Rightarrow>
               (case py_int conv (case d_year d of None \<Rightarrow> JInt 0 | Some y \<Rightarrow> y) of
                  Inl e \<Rightarrow> Inl e
                | Inr y \<Rightarrow>
                    (case py_int conv (case d_copies d of None \<Rightarrow> JInt 1 | Some n \<Rightarrow> n) of
                       Inl e \<Rightarrow> Inl e
                     | Inr n \<Rightarrow>
                         Inr \<lparr>r_book_id = i, r_title = t,
                              r_author = (case d_author d of None \<Rightarrow> [] | Some a \<Rightarrow> a),
                              r_year = y, r_copies = n\<rparr>))))"

text \<open>
  A record of type \<open>book\<close> as the \<^verbatim>\<open>Book\<close> object it stands for, and the two trees of a
  catalog as trees that hold such objects.
\<close>

definition raw_of :: "book \<Rightarrow> raw_book" where
  "raw_of b = \<lparr>r_book_id = book_id b, r_title = JStr (title b), r_author = author b,
               r_year = year b, r_copies = copies b\<rparr>"

fun map_values :: "('v \<Rightarrow> 'w) \<Rightarrow> ('k, 'v) tree \<Rightarrow> ('k, 'w) tree" where
  "map_values f NIL = NIL"
| "map_values f (Node l k v c r) = Node (map_values f l) k (f v) c (map_values f r)"

record raw_catalog =
  r_by_id :: "(int, raw_book) tree"
  r_by_title :: "(string \<times> int, raw_book) tree"

definition raw_view :: "catalog \<Rightarrow> raw_catalog" where
  "raw_view cat =
     \<lparr>r_by_id = map_values raw_of (by_id cat), r_by_title = map_values raw_of (by_title cat)\<rparr>"

text \<open>
  \<^verbatim>\<open>add_book\<close> on a \<^verbatim>\<open>Book\<close> that \<^verbatim>\<open>from_dict\<close> has built.  With a title that is a str this is
  \<open>add_book\<close> above.  With any other title \<^verbatim>\<open>book.title.lower()\<close> raises \<^verbatim>\<open>AttributeError\<close>
  (no JSON value but a str has a method \<^verbatim>\<open>lower\<close>), and it does so after \<^verbatim>\<open>by_id\<close> has been
  changed: on the update path \<^verbatim>\<open>existing.value = book\<close> and \<^verbatim>\<open>_remove_title_nodes_for_id\<close>
  have run, on the insert path \<^verbatim>\<open>by_id.insert\<close> has.  The exception carries the two trees
  as they are at that moment.
\<close>

definition add_book_loaded ::
  "raw_book \<Rightarrow> catalog \<Rightarrow> ((py_error \<times> raw_catalog) + (string \<times> catalog)) option" where
  "add_book_loaded rb cat =
     (case r_title rb of
        JStr t \<Rightarrow>
          map_option Inr
            (add_book \<lparr>book_id = r_book_id rb, title = t, author = r_author rb,
                       year = r_year rb, copies = r_copies rb\<rparr> cat)
      | _ \<Rightarrow>
          (case search_node (map_values raw_of (by_id cat)) (r_book_id rb) of
             Some existing \<Rightarrow>
               (case remove_title_nodes_for_id (r_book_id rb) (by_title cat) of
                  None \<Rightarrow> None
                | Some t1 \<Rightarrow>
                    Some (Inl (AttributeError,
                      \<lparr>r_by_id = set_value rb existing, r_by_title = map_values raw_of t1\<rparr>)))
           | None \<Rightarrow>
               (case insert (r_book_id rb) rb (map_values raw_of (by_id cat)) of
                  None \<Rightarrow> None
                | Some i1 \<Rightarrow>
                    Some (Inl (AttributeError,
                      \<lparr>r_by_id = i1, r_by_title = map_values raw_of (by_title cat)\<rparr>)))))"

text \<open>
  The loop of \<^verbatim>\<open>load_from_file\<close>, after the reset of both indices.  An exception leaves
  \<^verbatim>\<open>load_from_file\<close> at once, so the result carries the indices as they are at that
  moment.
\<close>

fun load_loop ::
  "(json \<Rightarrow> py_error + int) \<Rightarrow> element list \<Rightarrow> catalog
     \<Rightarrow> ((py_error + bool) \<times> raw_catalog) option" where
  "load_loop conv [] cat = Some (Inr True, raw_view cat)"
| "load_loop conv (d # ds) cat =
     (case from_dict conv d of
        Inl e \<Rightarrow> Some (Inl e, raw_view cat)
      | Inr rb \<Rightarrow>
          (case add_book_loaded rb cat of
             None \<Rightarrow> None
           | Some (Inl (e, final)) \<Rightarrow> Some (Inl e, final)
           | Some (Inr (status, cat')) \<Rightarrow> load_loop conv ds cat'))"

definition load_from_file ::
  "(json \<Rightarrow> py_error + int) \<Rightarrow> element list \<Rightarrow> catalog
     \<Rightarrow> ((py_error + bool) \<times> raw_catalog) option" where
  "load_from_file conv arr cat = load_loop conv arr new_catalog"

subsection \<open>Sequences of operations\<close>

datatype op = AddBook book | DeleteById int | Clear

fun apply_op :: "op \<Rightarrow> catalog \<Rightarrow> catalog option" where
  "apply_op (AddBook b) cat = map_option snd (add_book b cat)"
| "apply_op (DeleteById bid) cat = map_option snd (delete_by_id bid cat)"
| "apply_op Clear cat = Some new_catalog"

fun run :: "op list \<Rightarrow> catalog \<Rightarrow> catalog option" where
  "run [] cat = Some cat"
| "run (x # xs) cat = (case apply_op x cat of None \<Rightarrow> None | Some cat' \<Rightarrow> run xs cat')"

section \<open>Invariants and the vocabulary of the properties\<close>

text \<open>The entries to the left and to the right of a location, in key order.\<close>

fun before :: "('k, 'v) frame list \<Rightarrow> ('k \<times> 'v) list" where
  "before [] = []"
| "before (LeftOf k v c r # path) = before path"
| "before (RightOf l k v c # path) = before path @ inorder l @ [(k, v)]"

fun after :: "('k, 'v) frame list \<Rightarrow> ('k \<times> 'v) list" where
  "after [] = []"
| "after (LeftOf k v c r # path) = (k, v) # inorder r @ after path"
| "after (RightOf l k v c # path) = after path"

text \<open>The red-black properties, as CLRS states them.\<close>

fun no_red_red :: "('k, 'v) tree \<Rightarrow> bool" where
  "no_red_red NIL = True"
| "no_red_red (Node l k v c r) =
     ((c = BLACK \<or> (color_of l = BLACK \<and> color_of r = BLACK)) \<and> no_red_red l \<and> no_red_red r)"

text \<open>The number of BLACK nodes on each path from the root to the sentinel, left to right.\<close>

fun black_counts :: "('k, 'v) tree \<Rightarrow> nat list" where
  "black_counts NIL = [0]"
| "black_counts (Node l k v c r) =
     map (\<lambda>n. if c = BLACK then Suc n else n) (black_counts l @ black_counts r)"

definition equal_black_counts :: "('k, 'v) tree \<Rightarrow> bool" where
  "equal_black_counts t = list_all (\<lambda>n. n = hd (black_counts t)) (black_counts t)"

definition red_black :: "('k, 'v) tree \<Rightarrow> bool" where
  "red_black t = (color_of t = BLACK \<and> no_red_red t \<and> equal_black_counts t)"

text \<open>Black height along the leftmost path, and the recursive form of the equal-count property.\<close>

fun bheight :: "('k, 'v) tree \<Rightarrow> nat" where
  "bheight NIL = 0"
| "bheight (Node l k v c r) = (if c = BLACK then Suc (bheight l) else bheight l)"

fun balanced :: "('k, 'v) tree \<Rightarrow> bool" where
  "balanced NIL = True"
| "balanced (Node l k v c r) = (bheight l = bheight r \<and> balanced l \<and> balanced r)"

text \<open>
  What the ancestors of a location must satisfy for the whole tree to be red-black when
  the subtree at the location has black height \<open>n\<close> and a root of colour \<open>hc\<close>: each sibling
  subtree is red-black with the black height of the subtree it faces, a RED ancestor has
  BLACK children, and so on up the path.
\<close>

fun path_inv :: "nat \<Rightarrow> color \<Rightarrow> ('k, 'v) frame list \<Rightarrow> bool" where
  "path_inv n hc [] = True"
| "path_inv n hc (LeftOf k v c r # path) =
     (no_red_red r \<and> balanced r \<and> bheight r = n \<and>
      (c = BLACK \<or> (hc = BLACK \<and> color_of r = BLACK)) \<and>
      path_inv (if c = BLACK then Suc n else n) c path)"
| "path_inv n hc (RightOf l k v c # path) =
     (no_red_red l \<and> balanced l \<and> n = bheight l \<and>
      (c = BLACK \<or> (hc = BLACK \<and> color_of l = BLACK)) \<and>
      path_inv (if c = BLACK then Suc n else n) c path)"

text \<open>The last frame of a path is the root of the tree.\<close>

fun root_black :: "('k, 'v) frame list \<Rightarrow> bool" where
  "root_black [] = True"
| "root_black [f] = (frame_color f = BLACK)"
| "root_black (f # g # path) = root_black (g # path)"

text \<open>The search-tree property: the keys of \<^verbatim>\<open>inorder()\<close> increase strictly.\<close>

definition sorted_keys :: "('k::linorder \<times> 'v) list \<Rightarrow> bool" where
  "sorted_keys xs = sorted_wrt (<) (map fst xs)"

text \<open>
  The red-black properties in recursive form, and a RED node that is red-black but for
  the colour of its parent (the node \<open>z\<close> of \<^verbatim>\<open>_insert_fixup\<close>).
\<close>

definition rb_shape :: "('k, 'v) tree \<Rightarrow> bool" where
  "rb_shape t = (color_of t = BLACK \<and> no_red_red t \<and> balanced t)"

fun red_node :: "('k, 'v) tree \<Rightarrow> bool" where
  "red_node NIL = False"
| "red_node (Node l k v c r) =
     (c = RED \<and> color_of l = BLACK \<and> color_of r = BLACK \<and> no_red_red l \<and> no_red_red r \<and>
      balanced l \<and> balanced r \<and> bheight l = bheight r)"

text \<open>
  What \<^verbatim>\<open>insert\<close> and \<^verbatim>\<open>delete\<close> do to the sequence of entries: \<open>put_entry\<close> sets the value
  of a key, at its place in key order; \<open>drop_key\<close> removes a key.
\<close>

definition put_entry :: "'k::linorder \<Rightarrow> 'v \<Rightarrow> ('k \<times> 'v) list \<Rightarrow> ('k \<times> 'v) list" where
  "put_entry k v xs = filter (\<lambda>x. fst x < k) xs @ (k, v) # filter (\<lambda>x. k < fst x) xs"

definition drop_key :: "'k \<Rightarrow> ('k \<times> 'v) list \<Rightarrow> ('k \<times> 'v) list" where
  "drop_key k xs = filter (\<lambda>x. fst x \<noteq> k) xs"

text \<open>Sequences of \<^verbatim>\<open>insert\<close> and \<^verbatim>\<open>delete\<close> calls on one tree.\<close>

datatype ('k, 'v) tree_op = Insert 'k 'v | Delete 'k

fun apply_tree_op :: "('k::linorder, 'v) tree_op \<Rightarrow> ('k, 'v) tree \<Rightarrow> ('k, 'v) tree option" where
  "apply_tree_op (Insert key val) t = insert key val t"
| "apply_tree_op (Delete key) t = map_option snd (delete t key)"

fun run_tree_ops :: "('k::linorder, 'v) tree_op list \<Rightarrow> ('k, 'v) tree \<Rightarrow> ('k, 'v) tree option" where
  "run_tree_ops [] t = Some t"
| "run_tree_ops (x # xs) t =
     (case apply_tree_op x t of None \<Rightarrow> None | Some t' \<Rightarrow> run_tree_ops xs t')"

text \<open>A tree without its values: shape, keys and colours.\<close>

fun skeleton :: "('k, 'v) tree \<Rightarrow> ('k, unit) tree" where
  "skeleton NIL = NIL"
| "skeleton (Node l k v c r) = Node (skeleton l) k () c (skeleton r)"

text \<open>A red-black search tree.\<close>

definition tree_ok :: "('k::linorder, 'v) tree \<Rightarrow> bool" where
  "tree_ok t = (rb_shape t \<and> sorted_keys (inorder t))"

text \<open>
  The key under which \<^verbatim>\<open>add_book\<close> and \<^verbatim>\<open>delete_by_id\<close> file a record in \<^verbatim>\<open>by_title\<close>, and
  the invariant that ties the two indices: both are red-black search trees, every record
  of \<^verbatim>\<open>by_id\<close> is stored under its own identifier, and the entries of \<^verbatim>\<open>by_title\<close> are
  exactly the records of \<^verbatim>\<open>by_id\<close>, each under its title key.
\<close>

definition title_key :: "book \<Rightarrow> string \<times> int" where
  "title_key b = (lower (title b), book_id b)"

definition cat_inv :: "catalog \<Rightarrow> bool" where
  "cat_inv cat =
     (tree_ok (by_id cat) \<and> tree_ok (by_title cat) \<and>
      (\<forall>x \<in> set (inorder (by_id cat)). book_id (snd x) = fst x) \<and>
      set (inorder (by_title cat)) = (\<lambda>x. (title_key (snd x), snd x)) ` set (inorder (by_id cat)))"

text \<open>
  The identifiers of the two indices, and the cross-index property in two readings: with
  the title component of a \<^verbatim>\<open>by_title\<close> key compared to the record's \<^verbatim>\<open>title\<close> itself, and
  compared to its lower-cased title.
\<close>

definition id_index_ids :: "catalog \<Rightarrow> int set" where
  "id_index_ids cat = fst ` set (inorder (by_id cat))"

definition title_index_ids :: "catalog \<Rightarrow> int set" where
  "title_index_ids cat = (\<lambda>x. snd (fst x)) ` set (inorder (by_title cat))"

definition cross_index_as_claimed :: "catalog \<Rightarrow> bool" where
  "cross_index_as_claimed cat =
     (id_index_ids cat = title_index_ids cat \<and>
      list_all (\<lambda>x. case search_by_id cat (snd (fst x)) of
                       None \<Rightarrow> False
                     | Some b \<Rightarrow> fst (fst x) = title b)
        (inorder (by_title cat)))"

definition cross_index :: "catalog \<Rightarrow> bool" where
  "cross_index cat =
     (id_index_ids cat = title_index_ids cat \<and>
      list_all (\<lambda>x. case search_by_id cat (snd (fst x)) of
                       None \<Rightarrow> False
                     | Some b \<Rightarrow> fst (fst x) = lower (title b))
        (inorder (by_title cat)))"





section \<open>Termination of the title scans\<close>

lemma minimum_remaining:
  "t \<noteq> NIL \<Longrightarrow> remaining (Some (minimum t path)) \<le> length (inorder t) + nodes_after path"
  by (induction t path rule: minimum.induct) auto

lemma climb_remaining:
  "remaining (climb x path) \<le> nodes_after path"
  by (induction x path rule: climb.induct) auto

lemma successor_remaining:
  "remaining (successor (Node l k v c r, path)) < remaining (Some (Node l k v c r, path))"
proof (cases "r = NIL")
  case True
  then show ?thesis
    using climb_remaining [of "Node l k v c r" path] by simp
next
  case False
  then show ?thesis
    using minimum_remaining [of r "RightOf l k v c # path"] by simp
qed

termination exact_loop
  by (relation "measure (\<lambda>(tkey, node, res). remaining node)")
     (auto simp del: successor.simps remaining.simps simp: successor_remaining)

termination prefix_loop
  by (relation "measure (\<lambda>(p, node, res). remaining node)")
     (auto simp del: successor.simps remaining.simps simp: successor_remaining)

section \<open>Correctness of the tree and catalog operations\<close>

subsection \<open>Black counts, locations and paths\<close>

lemma black_counts_nonempty: "black_counts t \<noteq> []"
  by (induction t) auto

lemma balanced_counts: "balanced t \<Longrightarrow> set (black_counts t) = {bheight t}"
  by (induction t) (auto simp: image_iff)

lemma hd_black_counts: "hd (black_counts t) = bheight t"
proof (induction t)
  case NIL
  then show ?case by simp
next
  case (Node l k v c r)
  then show ?case
    using black_counts_nonempty [of l] by (simp add: hd_map hd_append)
qed

lemma bheight_in_counts: "bheight t \<in> set (black_counts t)"
  using hd_black_counts [of t] black_counts_nonempty [of t] hd_in_set by metis

lemma counts_balanced:
  "\<forall>n \<in> set (black_counts t). n = m \<Longrightarrow> balanced t"
proof (induction t arbitrary: m)
  case NIL
  then show ?case by simp
next
  case (Node l k v c r)
  define d where "d = (if c = BLACK then Suc 0 else 0)"
  have all: "\<forall>n \<in> set (black_counts l) \<union> set (black_counts r). n + d = m"
    using Node.prems by (auto simp: d_def split: if_splits)
  then have l: "\<forall>n \<in> set (black_counts l). n = m - d" and r: "\<forall>n \<in> set (black_counts r). n = m - d"
    by auto
  have "bheight l = m - d" "bheight r = m - d"
    using l r bheight_in_counts by blast+
  with Node.IH(1) [OF l] Node.IH(2) [OF r] show ?case by simp
qed

lemma equal_black_counts_iff: "equal_black_counts t = balanced t"
proof
  assume "equal_black_counts t"
  then show "balanced t"
    unfolding equal_black_counts_def list_all_iff by (rule counts_balanced)
next
  assume "balanced t"
  then show "equal_black_counts t"
    using balanced_counts [of t] by (auto simp: equal_black_counts_def list_all_iff hd_black_counts)
qed

lemma inorder_rebuild: "inorder (rebuild t path) = before path @ inorder t @ after path"
  by (induction t path rule: rebuild.induct) auto

lemma color_of_paint [simp]: "color_of (paint BLACK t) = BLACK"
  by (cases t) auto

lemma inorder_paint [simp]: "inorder (paint c t) = inorder t"
  by (cases t) auto

lemma no_red_red_paint_black [simp]: "no_red_red t \<Longrightarrow> no_red_red (paint BLACK t)"
  by (cases t) auto

lemma balanced_paint [simp]: "balanced (paint c t) = balanced t"
  by (cases t) auto

lemma path_inv_weaken: "path_inv n hc path \<Longrightarrow> path_inv n BLACK path"
  by (cases path rule: root_black.cases; cases "hd path") auto

lemma rebuild_inv_gen:
  "no_red_red t \<Longrightarrow> balanced t \<Longrightarrow> path_inv n hc path \<Longrightarrow> bheight t = n \<Longrightarrow> color_of t = hc
   \<Longrightarrow> no_red_red (rebuild t path) \<and> balanced (rebuild t path)"
  by (induction t path arbitrary: n hc rule: rebuild.induct) auto

lemma rebuild_inv:
  "no_red_red t \<Longrightarrow> balanced t \<Longrightarrow> path_inv (bheight t) (color_of t) path
   \<Longrightarrow> no_red_red (rebuild t path) \<and> balanced (rebuild t path)"
  using rebuild_inv_gen by blast

lemma rebuild_inv_conv:
  "no_red_red (rebuild t path) \<Longrightarrow> balanced (rebuild t path)
   \<Longrightarrow> no_red_red t \<and> balanced t \<and> path_inv (bheight t) (color_of t) path"
  by (induction t path rule: rebuild.induct) auto

lemma rebuild_Cons: "\<exists>t'. rebuild t (f # path) = rebuild t' path"
  by (cases f) auto

lemma color_of_rebuild:
  "root_black path \<Longrightarrow> path \<noteq> [] \<Longrightarrow> color_of (rebuild t path) = BLACK"
proof (induction path arbitrary: t rule: root_black.induct)
  case 1
  then show ?case by simp
next
  case (2 f)
  then show ?case by (cases f) auto
next
  case (3 f g path)
  obtain t' where "rebuild t (f # g # path) = rebuild t' (g # path)"
    using rebuild_Cons by blast
  with 3 show ?case by simp
qed

lemma root_black_conv:
  "color_of (rebuild t path) = BLACK \<Longrightarrow> root_black path"
proof (induction path arbitrary: t rule: root_black.induct)
  case 1
  then show ?case by simp
next
  case (2 f)
  then show ?case by (cases f) auto
next
  case (3 f g path)
  obtain t' where "rebuild t (f # g # path) = rebuild t' (g # path)"
    using rebuild_Cons by blast
  with 3 show ?case by simp
qed

subsection \<open>insert\<close>

lemma not_RED [simp]: "(c \<noteq> RED) = (c = BLACK)"
  by (cases c) auto

lemma not_BLACK [simp]: "(c \<noteq> BLACK) = (c = RED)"
  by (cases c) auto

lemma red_black_iff: "red_black t = rb_shape t"
  by (simp add: red_black_def rb_shape_def equal_black_counts_iff)

lemma finish_ok:
  "no_red_red t \<Longrightarrow> balanced t \<Longrightarrow> path_inv (bheight t) (color_of t) path \<Longrightarrow>
   rb_shape (paint BLACK (rebuild t path))"
  using rebuild_inv [of t path] by (simp add: rb_shape_def)

lemma insert_fixup_shape:
  "red_node z \<Longrightarrow> path_inv (bheight z) BLACK path \<Longrightarrow> root_black path \<Longrightarrow>
   \<exists>t'. insert_fixup z path = Some t' \<and> rb_shape t'"
proof (induction z path rule: insert_fixup.induct)
  case (1 path)
  then show ?case by simp
next
  case (2 zl zk zv zc zr)
  then show ?case by (simp add: rb_shape_def)
next
  case (3 zl zk zv zc zr p)
  then show ?case
    by (cases p) (auto simp: rb_shape_def)
next
  case (4 zl zk zv zc zr pk pv pc pr gk gv gc y path)
  note IH = "4.IH" and z = "4.prems"(1) and p = "4.prems"(2) and r = "4.prems"(3)
  show ?case
  proof (cases pc)
    case BLACK
    then show ?thesis using z p by (auto simp del: rebuild.simps intro!: finish_ok)
  next
    case RED
    note pcR = RED
    then have gc: "gc = BLACK" using p by simp
    have rp: "root_black path" using r by (cases path) auto
    show ?thesis
    proof (cases y)
      case NIL
      then show ?thesis using z p pcR gc by (auto simp del: rebuild.simps intro!: finish_ok)
    next
      case (Node yl yk yv yc yr)
      show ?thesis
      proof (cases yc)
        case RED
        then show ?thesis using z p rp pcR gc Node IH [of yl yk yv yc yr] by auto
      next
        case BLACK
        then show ?thesis using z p pcR gc Node
          by (auto simp del: rebuild.simps intro!: finish_ok)
      qed
    qed
  qed
next
  case (5 zl zk zv zc zr pl pk pv pc gk gv gc y path)
  note IH = "5.IH" and z = "5.prems"(1) and p = "5.prems"(2) and r = "5.prems"(3)
  show ?case
  proof (cases pc)
    case BLACK
    then show ?thesis using z p by (auto simp del: rebuild.simps intro!: finish_ok)
  next
    case RED
    note pcR = RED
    then have gc: "gc = BLACK" using p by simp
    have rp: "root_black path" using r by (cases path) auto
    show ?thesis
    proof (cases y)
      case NIL
      then show ?thesis using z p pcR gc by (auto simp del: rebuild.simps intro!: finish_ok)
    next
      case (Node yl yk yv yc yr)
      show ?thesis
      proof (cases yc)
        case RED
        then show ?thesis using z p rp pcR gc Node IH [of yl yk yv yc yr] by auto
      next
        case BLACK
        then show ?thesis using z p pcR gc Node
          by (auto simp del: rebuild.simps intro!: finish_ok)
      qed
    qed
  qed
next
  case (6 zl zk zv zc zr pl pk pv pc y gk gv gc path)
  note IH = "6.IH" and z = "6.prems"(1) and p = "6.prems"(2) and r = "6.prems"(3)
  show ?case
  proof (cases pc)
    case BLACK
    then show ?thesis using z p by (auto simp del: rebuild.simps intro!: finish_ok)
  next
    case RED
    note pcR = RED
    then have gc: "gc = BLACK" using p by simp
    have rp: "root_black path" using r by (cases path) auto
    show ?thesis
    proof (cases y)
      case NIL
      then show ?thesis using z p pcR gc by (auto simp del: rebuild.simps intro!: finish_ok)
    next
      case (Node yl yk yv yc yr)
      show ?thesis
      proof (cases yc)
        case RED
        then show ?thesis using z p rp pcR gc Node IH [of yl yk yv yc yr] by auto
      next
        case BLACK
        then show ?thesis using z p pcR gc Node
          by (auto simp del: rebuild.simps intro!: finish_ok)
      qed
    qed
  qed
next
  case (7 zl zk zv zc zr pk pv pc pr y gk gv gc path)
  note IH = "7.IH" and z = "7.prems"(1) and p = "7.prems"(2) and r = "7.prems"(3)
  show ?case
  proof (cases pc)
    case BLACK
    then show ?thesis using z p by (auto simp del: rebuild.simps intro!: finish_ok)
  next
    case RED
    note pcR = RED
    then have gc: "gc = BLACK" using p by simp
    have rp: "root_black path" using r by (cases path) auto
    show ?thesis
    proof (cases y)
      case NIL
      then show ?thesis using z p pcR gc by (auto simp del: rebuild.simps intro!: finish_ok)
    next
      case (Node yl yk yv yc yr)
      show ?thesis
      proof (cases yc)
        case RED
        then show ?thesis using z p rp pcR gc Node IH [of yl yk yv yc yr] by auto
      next
        case BLACK
        then show ?thesis using z p pcR gc Node
          by (auto simp del: rebuild.simps intro!: finish_ok)
      qed
    qed
  qed
qed

lemma insert_fixup_inorder:
  "insert_fixup z path = Some t' \<Longrightarrow> inorder t' = before path @ inorder z @ after path"
proof (induction z path rule: insert_fixup.induct)
  case (3 zl zk zv zc zr p)
  then show ?case by (cases p) (auto split: if_splits)
qed (auto simp: inorder_rebuild split: if_splits tree.splits color.splits)

lemma sorted_keys_append:
  "sorted_keys (xs @ ys) = (sorted_keys xs \<and> sorted_keys ys \<and> (\<forall>x \<in> set xs. \<forall>y \<in> set ys. fst x < fst y))"
  by (auto simp: sorted_keys_def sorted_wrt_append)

lemma sorted_keys_Cons:
  "sorted_keys (x # xs) = (sorted_keys xs \<and> (\<forall>y \<in> set xs. fst x < fst y))"
  by (auto simp: sorted_keys_def)

lemma sorted_keys_Nil [simp]: "sorted_keys []"
  by (simp add: sorted_keys_def)

lemma filter_all: "\<forall>x \<in> set xs. P x \<Longrightarrow> filter P xs = xs"
  by (induction xs) auto

lemma filter_none: "\<forall>x \<in> set xs. \<not> P x \<Longrightarrow> filter P xs = []"
  by (induction xs) auto

lemma put_entry_left:
  assumes "key < k" "\<forall>x \<in> set rs. k < fst x"
  shows "put_entry key val (ls @ (k, v) # rs) = put_entry key val ls @ (k, v) # rs"
proof -
  have "filter (\<lambda>x. fst x < key) rs = []"
    using assms by (intro filter_none) force
  moreover have "filter (\<lambda>x. key < fst x) rs = rs"
    using assms by (intro filter_all) force
  ultimately show ?thesis using assms by (simp add: put_entry_def)
qed

lemma put_entry_right:
  assumes "k < key" "\<forall>x \<in> set ls. fst x < k"
  shows "put_entry key val (ls @ (k, v) # rs) = ls @ (k, v) # put_entry key val rs"
proof -
  have "filter (\<lambda>x. fst x < key) ls = ls"
    using assms by (intro filter_all) force
  moreover have "filter (\<lambda>x. key < fst x) ls = []"
    using assms by (intro filter_none) force
  ultimately show ?thesis using assms by (simp add: put_entry_def)
qed

lemma put_entry_here:
  assumes "\<forall>x \<in> set ls. fst x < k" "\<forall>x \<in> set rs. k < fst x"
  shows "put_entry k val (ls @ (k, v) # rs) = ls @ (k, val) # rs"
proof -
  have "filter (\<lambda>x. fst x < k) ls = ls" "filter (\<lambda>x. k < fst x) rs = rs"
    using assms by (simp_all add: filter_all)
  moreover have "filter (\<lambda>x. k < fst x) ls = []" "filter (\<lambda>x. fst x < k) rs = []"
    using assms by (intro filter_none; force)+
  ultimately show ?thesis by (simp add: put_entry_def)
qed

lemma insert_loop_inorder:
  "sorted_keys (inorder t) \<Longrightarrow> insert_loop key val t path = Some t' \<Longrightarrow>
   inorder t' = before path @ put_entry key val (inorder t) @ after path"
proof (induction key val t path rule: insert_loop.induct)
  case (1 key val path)
  then show ?case
    using insert_fixup_inorder [of "Node NIL key val RED NIL" path t']
    by (simp add: put_entry_def)
next
  case (2 key val l k v c r path)
  from "2.prems"(1) have sl: "sorted_keys (inorder l)" and sr: "sorted_keys (inorder r)"
    and lk: "\<forall>x \<in> set (inorder l). fst x < k" and kr: "\<forall>x \<in> set (inorder r). k < fst x"
    by (auto simp: sorted_keys_append sorted_keys_Cons)
  show ?case
  proof (cases "key < k")
    case True
    with "2.IH"(1) [OF True sl] "2.prems"(2) show ?thesis
      by (simp add: put_entry_left [OF True kr])
  next
    case False
    show ?thesis
    proof (cases "k < key")
      case True
      with "2.IH"(2) [OF False _ sr] False "2.prems"(2) show ?thesis
        by (simp add: put_entry_right [OF True lk])
    next
      case nlt: False
      with False have "key = k" by simp
      with "2.prems"(2) show ?thesis
        by (auto simp: put_entry_here [OF lk kr] inorder_rebuild)
    qed
  qed
qed

lemma rb_shape_rebuild_iff:
  "rb_shape (rebuild t path) =
     (no_red_red t \<and> balanced t \<and> path_inv (bheight t) (color_of t) path \<and> root_black path \<and>
      (path = [] \<longrightarrow> color_of t = BLACK))"
proof (cases "path = []")
  case True
  then show ?thesis by (auto simp: rb_shape_def)
next
  case False
  show ?thesis
  proof
    assume a: "rb_shape (rebuild t path)"
    then show "no_red_red t \<and> balanced t \<and> path_inv (bheight t) (color_of t) path \<and> root_black path \<and>
      (path = [] \<longrightarrow> color_of t = BLACK)"
      using rebuild_inv_conv [of t path] root_black_conv [of t path] False
      by (simp add: rb_shape_def)
  next
    assume "no_red_red t \<and> balanced t \<and> path_inv (bheight t) (color_of t) path \<and> root_black path \<and>
      (path = [] \<longrightarrow> color_of t = BLACK)"
    then show "rb_shape (rebuild t path)"
      using rebuild_inv [of t path] color_of_rebuild [of path t] False
      by (simp add: rb_shape_def)
  qed
qed

lemma insert_loop_shape:
  "rb_shape (rebuild t path) \<Longrightarrow> \<exists>t'. insert_loop key val t path = Some t' \<and> rb_shape t'"
proof (induction key val t path rule: insert_loop.induct)
  case (1 key val path)
  then have "path_inv 0 BLACK path" "root_black path"
    by (simp_all add: rb_shape_rebuild_iff)
  then show ?case
    using insert_fixup_shape [of "Node NIL key val RED NIL" path] by simp
next
  case (2 key val l k v c r path)
  show ?case
  proof (cases "key < k")
    case True
    with "2.IH"(1) [OF True] "2.prems" show ?thesis by simp
  next
    case False
    show ?thesis
    proof (cases "k < key")
      case True
      with "2.IH"(2) [OF False] False "2.prems" show ?thesis by simp
    next
      case nlt: False
      from "2.prems" have "rb_shape (rebuild (Node l k val c r) path)"
        by (simp add: rb_shape_rebuild_iff)
      with False nlt show ?thesis by simp
    qed
  qed
qed

subsection \<open>delete\<close>

lemma delete_case34_left_inorder:
  "delete_case34_left x pk pv pc w path = Some t' \<Longrightarrow>
   inorder t' = before path @ inorder x @ (pk, pv) # inorder w @ after path"
  by (cases w) (auto simp: inorder_rebuild split: if_splits tree.splits)

lemma delete_case34_right_inorder:
  "delete_case34_right x pk pv pc w path = Some t' \<Longrightarrow>
   inorder t' = before path @ inorder w @ (pk, pv) # inorder x @ after path"
  by (cases w) (auto simp: inorder_rebuild split: if_splits tree.splits)

lemma delete_fixup_inorder:
  "delete_fixup x path = Some t' \<Longrightarrow> inorder t' = before path @ inorder x @ after path"
proof (induction x path arbitrary: t' rule: delete_fixup.induct)
  case (1 x)
  then show ?case by auto
next
  case (2 x pk pv pc w path)
  show ?case
  proof (cases "color_of x = RED")
    case True
    with "2.prems" show ?thesis by (auto simp: inorder_rebuild)
  next
    case xb: False
    show ?thesis
    proof (cases w)
      case NIL
      with "2.prems" xb show ?thesis by simp
    next
      case (Node wl wk wv wc wr)
      show ?thesis
      proof (cases wc)
        case RED
        show ?thesis
        proof (cases wl)
          case NIL
          with "2.prems" xb Node RED show ?thesis by simp
        next
          case wlN: (Node a lk lv lc b)
          show ?thesis
          proof (cases "color_of a = BLACK \<and> color_of b = BLACK")
            case True
            with "2.IH"(1) [OF xb Node RED wlN True, of t'] "2.prems" xb Node RED wlN
            show ?thesis by simp
          next
            case False
            with "2.prems" xb Node RED wlN
            have "delete_case34_left x pk pv RED (Node a lk lv lc b) (LeftOf wk wv BLACK wr # path) = Some t'"
              by auto
            from delete_case34_left_inorder [OF this] Node wlN show ?thesis by simp
          qed
        qed
      next
        case BLACK
        show ?thesis
        proof (cases "color_of wl = BLACK \<and> color_of wr = BLACK")
          case True
          with "2.IH"(2) [OF xb Node BLACK True, of t'] "2.prems" xb Node BLACK
          show ?thesis by simp
        next
          case False
          with "2.prems" xb Node BLACK
          have "delete_case34_left x pk pv pc (Node wl wk wv BLACK wr) path = Some t'"
            by auto
          from delete_case34_left_inorder [OF this] Node show ?thesis by simp
        qed
      qed
    qed
  qed
next
  case (3 x w pk pv pc path)
  show ?case
  proof (cases "color_of x = RED")
    case True
    with "3.prems" show ?thesis by (auto simp: inorder_rebuild)
  next
    case xb: False
    show ?thesis
    proof (cases w)
      case NIL
      with "3.prems" xb show ?thesis by simp
    next
      case (Node wl wk wv wc wr)
      show ?thesis
      proof (cases wc)
        case RED
        show ?thesis
        proof (cases wr)
          case NIL
          with "3.prems" xb Node RED show ?thesis by simp
        next
          case wrN: (Node a rk rv rc b)
          show ?thesis
          proof (cases "color_of b = BLACK \<and> color_of a = BLACK")
            case True
            with "3.IH"(1) [OF xb Node RED wrN True, of t'] "3.prems" xb Node RED wrN
            show ?thesis by simp
          next
            case False
            with "3.prems" xb Node RED wrN
            have "delete_case34_right x pk pv RED (Node a rk rv rc b) (RightOf wl wk wv BLACK # path) = Some t'"
              by auto
            from delete_case34_right_inorder [OF this] Node wrN show ?thesis by simp
          qed
        qed
      next
        case BLACK
        show ?thesis
        proof (cases "color_of wr = BLACK \<and> color_of wl = BLACK")
          case True
          with "3.IH"(2) [OF xb Node BLACK True, of t'] "3.prems" xb Node BLACK
          show ?thesis by simp
        next
          case False
          with "3.prems" xb Node BLACK
          have "delete_case34_right x pk pv pc (Node wl wk wv BLACK wr) path = Some t'"
            by auto
          from delete_case34_right_inorder [OF this] Node show ?thesis by simp
        qed
      qed
    qed
  qed
qed

lemma bheight_paint_red: "color_of t = RED \<Longrightarrow> bheight (paint BLACK t) = Suc (bheight t)"
  by (cases t) auto

lemma delete_case34_left_shape:
  assumes "no_red_red x" "color_of x = BLACK" "balanced x" "bheight x = n"
    and "no_red_red wl" "no_red_red wr" "balanced wl" "balanced wr" "bheight wl = n" "bheight wr = n"
    and "\<not> (color_of wl = BLACK \<and> color_of wr = BLACK)"
    and "path_inv (if pc = BLACK then Suc (Suc n) else Suc n) pc path"
  shows "\<exists>t'. delete_case34_left x pk pv pc (Node wl wk wv wc wr) path = Some t' \<and> rb_shape t'"
proof (cases "color_of wr = BLACK")
  case True
  with assms obtain a lk lv b where wl: "wl = Node a lk lv RED b"
    by (cases wl) auto
  show ?thesis using assms True wl
    by (auto simp del: rebuild.simps intro!: finish_ok)
next
  case False
  then show ?thesis using assms
    by (auto simp del: rebuild.simps simp add: bheight_paint_red intro!: finish_ok)
qed

lemma delete_case34_right_shape:
  assumes "no_red_red x" "color_of x = BLACK" "balanced x" "bheight x = n"
    and "no_red_red wl" "no_red_red wr" "balanced wl" "balanced wr" "bheight wl = n" "bheight wr = n"
    and "\<not> (color_of wr = BLACK \<and> color_of wl = BLACK)"
    and "path_inv (if pc = BLACK then Suc (Suc n) else Suc n) pc path"
  shows "\<exists>t'. delete_case34_right x pk pv pc (Node wl wk wv wc wr) path = Some t' \<and> rb_shape t'"
proof (cases "color_of wl = BLACK")
  case True
  with assms obtain a rk rv b where wr: "wr = Node a rk rv RED b"
    by (cases wr) auto
  show ?thesis using assms True wr
    by (auto simp del: rebuild.simps intro!: finish_ok)
next
  case False
  then show ?thesis using assms
    by (auto simp del: rebuild.simps simp add: bheight_paint_red intro!: finish_ok)
qed

lemma delete_fixup_shape:
  "no_red_red (paint BLACK x) \<Longrightarrow> balanced x \<Longrightarrow> bheight x = n \<Longrightarrow>
   path_inv (Suc n) BLACK path \<Longrightarrow> root_black path \<Longrightarrow>
   \<exists>t'. delete_fixup x path = Some t' \<and> rb_shape t'"
proof (induction x path arbitrary: n rule: delete_fixup.induct)
  case (1 x)
  then show ?case by (simp add: rb_shape_def)
next
  case (2 x pk pv pc w path)
  note nrr = "2.prems"(1) and bal = "2.prems"(2) and bh = "2.prems"(3)
    and pth = "2.prems"(4) and rt = "2.prems"(5)
  show ?case
  proof (cases "color_of x = RED")
    case True
    then have "bheight (paint BLACK x) = Suc n" using bh by (cases x) auto
    then have "rb_shape (rebuild (paint BLACK x) (LeftOf pk pv pc w # path))"
      using nrr bal pth rt unfolding rb_shape_rebuild_iff by auto
    with True show ?thesis by simp
  next
    case xb: False
    then have xB: "color_of x = BLACK" by simp
    then have nx: "no_red_red x" using nrr by (cases x) auto
    from pth have w: "no_red_red w" "balanced w" "bheight w = Suc n"
      and pcw: "pc = BLACK \<or> color_of w = BLACK"
      and up: "path_inv (if pc = BLACK then Suc (Suc n) else Suc n) pc path"
      by auto
    have rt': "root_black path" using rt by (cases path) auto
    show ?thesis
    proof (cases w)
      case NIL
      with w show ?thesis by simp
    next
      case (Node wl wk wv wc wr)
      show ?thesis
      proof (cases wc)
        case RED
        with Node pcw have pcB: "pc = BLACK" by simp
        from w Node RED have ch: "color_of wl = BLACK" "color_of wr = BLACK"
          "no_red_red wl" "no_red_red wr" "balanced wl" "balanced wr"
          "bheight wl = Suc n" "bheight wr = Suc n"
          by auto
        from up pcB have up2: "path_inv (Suc (Suc n)) BLACK path" by simp
        show ?thesis
        proof (cases wl)
          case NIL
          with ch show ?thesis by simp
        next
          case inN: (Node a lk lv lc b)
          with ch have ab: "no_red_red a" "no_red_red b" "balanced a" "balanced b"
            "bheight a = n" "bheight b = n"
            by auto
          show ?thesis
          proof (cases "color_of a = BLACK \<and> color_of b = BLACK")
            case True
            have "\<exists>t'. delete_fixup (Node x pk pv RED (Node a lk lv RED b)) (LeftOf wk wv BLACK wr # path) = Some t' \<and> rb_shape t'"
            proof (rule "2.IH"(1) [OF xb Node RED inN True, of n])
              show "no_red_red (paint BLACK (Node x pk pv RED (Node a lk lv RED b)))" using nx ab True by simp
              show "balanced (Node x pk pv RED (Node a lk lv RED b))" using bal bh ab by simp
              show "bheight (Node x pk pv RED (Node a lk lv RED b)) = n" using bh ab by simp
              show "path_inv (Suc n) BLACK (LeftOf wk wv BLACK wr # path)" using ch up2 by simp
              show "root_black (LeftOf wk wv BLACK wr # path)" using rt' by (cases path) auto
            qed
            then show ?thesis using xb Node RED inN True by simp
          next
            case False
            have "\<exists>t'. delete_case34_left x pk pv RED (Node a lk lv lc b) (LeftOf wk wv BLACK wr # path) = Some t' \<and> rb_shape t'"
            proof (rule delete_case34_left_shape [where n = n])
              show "path_inv (if RED = BLACK then Suc (Suc n) else Suc n) RED (LeftOf wk wv BLACK wr # path)"
                using ch up2 by simp
            qed (use nx xB bal bh ab False in auto)
            then show ?thesis using xb Node RED inN False
              by (auto simp del: delete_case34_left.simps delete_case34_right.simps)
          qed
        qed
      next
        case BLACK
        from w Node BLACK have ch: "no_red_red wl" "no_red_red wr" "balanced wl" "balanced wr"
          "bheight wl = n" "bheight wr = n"
          by auto
        show ?thesis
        proof (cases "color_of wl = BLACK \<and> color_of wr = BLACK")
          case True
          have "\<exists>t'. delete_fixup (Node x pk pv pc (Node wl wk wv RED wr)) path = Some t' \<and> rb_shape t'"
          proof (rule "2.IH"(2) [OF xb Node BLACK True, of "if pc = BLACK then Suc n else n"])
            show "no_red_red (paint BLACK (Node x pk pv pc (Node wl wk wv RED wr)))" using nx ch True by simp
            show "balanced (Node x pk pv pc (Node wl wk wv RED wr))" using bal bh ch by simp
            show "bheight (Node x pk pv pc (Node wl wk wv RED wr)) = (if pc = BLACK then Suc n else n)" using bh ch by simp
            show "path_inv (Suc (if pc = BLACK then Suc n else n)) BLACK path"
              using path_inv_weaken [OF up] by (simp split: if_splits)
            show "root_black path" by (rule rt')
          qed
          then show ?thesis using xb Node BLACK True by simp
        next
          case False
          have "\<exists>t'. delete_case34_left x pk pv pc (Node wl wk wv BLACK wr) path = Some t' \<and> rb_shape t'"
            by (rule delete_case34_left_shape [where n = n]) (use nx xB bal bh ch False up in auto)
          then show ?thesis using xb Node BLACK False
            by (auto simp del: delete_case34_left.simps delete_case34_right.simps)
        qed
      qed
    qed
  qed
next
  case (3 x w pk pv pc path)
  note nrr = "3.prems"(1) and bal = "3.prems"(2) and bh = "3.prems"(3)
    and pth = "3.prems"(4) and rt = "3.prems"(5)
  show ?case
  proof (cases "color_of x = RED")
    case True
    then have "bheight (paint BLACK x) = Suc n" using bh by (cases x) auto
    then have "rb_shape (rebuild (paint BLACK x) (RightOf w pk pv pc # path))"
      using nrr bal pth rt unfolding rb_shape_rebuild_iff by auto
    with True show ?thesis by simp
  next
    case xb: False
    then have xB: "color_of x = BLACK" by simp
    then have nx: "no_red_red x" using nrr by (cases x) auto
    from pth have w: "no_red_red w" "balanced w" "bheight w = Suc n"
      and pcw: "pc = BLACK \<or> color_of w = BLACK"
      and up: "path_inv (if pc = BLACK then Suc (Suc n) else Suc n) pc path"
      by auto
    have rt': "root_black path" using rt by (cases path) auto
    show ?thesis
    proof (cases w)
      case NIL
      with w show ?thesis by simp
    next
      case (Node wl wk wv wc wr)
      show ?thesis
      proof (cases wc)
        case RED
        with Node pcw have pcB: "pc = BLACK" by simp
        from w Node RED have ch: "color_of wl = BLACK" "color_of wr = BLACK"
          "no_red_red wl" "no_red_red wr" "balanced wl" "balanced wr"
          "bheight wl = Suc n" "bheight wr = Suc n"
          by auto
        from up pcB have up2: "path_inv (Suc (Suc n)) BLACK path" by simp
        show ?thesis
        proof (cases wr)
          case NIL
          with ch show ?thesis by simp
        next
          case inN: (Node a rk rv rc b)
          with ch have ab: "no_red_red a" "no_red_red b" "balanced a" "balanced b"
            "bheight a = n" "bheight b = n"
            by auto
          show ?thesis
          proof (cases "color_of b = BLACK \<and> color_of a = BLACK")
            case True
            have "\<exists>t'. delete_fixup (Node (Node a rk rv RED b) pk pv RED x) (RightOf wl wk wv BLACK # path) = Some t' \<and> rb_shape t'"
            proof (rule "3.IH"(1) [OF xb Node RED inN True, of n])
              show "no_red_red (paint BLACK (Node (Node a rk rv RED b) pk pv RED x))" using nx ab True by simp
              show "balanced (Node (Node a rk rv RED b) pk pv RED x)" using bal bh ab by simp
              show "bheight (Node (Node a rk rv RED b) pk pv RED x) = n" using bh ab by simp
              show "path_inv (Suc n) BLACK (RightOf wl wk wv BLACK # path)" using ch up2 by simp
              show "root_black (RightOf wl wk wv BLACK # path)" using rt' by (cases path) auto
            qed
            then show ?thesis using xb Node RED inN True by simp
          next
            case False
            have "\<exists>t'. delete_case34_right x pk pv RED (Node a rk rv rc b) (RightOf wl wk wv BLACK # path) = Some t' \<and> rb_shape t'"
            proof (rule delete_case34_right_shape [where n = n])
              show "path_inv (if RED = BLACK then Suc (Suc n) else Suc n) RED (RightOf wl wk wv BLACK # path)"
                using ch up2 by simp
            qed (use nx xB bal bh ab False in auto)
            then show ?thesis using xb Node RED inN False
              by (auto simp del: delete_case34_left.simps delete_case34_right.simps)
          qed
        qed
      next
        case BLACK
        from w Node BLACK have ch: "no_red_red wl" "no_red_red wr" "balanced wl" "balanced wr"
          "bheight wl = n" "bheight wr = n"
          by auto
        show ?thesis
        proof (cases "color_of wr = BLACK \<and> color_of wl = BLACK")
          case True
          have "\<exists>t'. delete_fixup (Node (Node wl wk wv RED wr) pk pv pc x) path = Some t' \<and> rb_shape t'"
          proof (rule "3.IH"(2) [OF xb Node BLACK True, of "if pc = BLACK then Suc n else n"])
            show "no_red_red (paint BLACK (Node (Node wl wk wv RED wr) pk pv pc x))" using nx ch True by simp
            show "balanced (Node (Node wl wk wv RED wr) pk pv pc x)" using bal bh ch by simp
            show "bheight (Node (Node wl wk wv RED wr) pk pv pc x) = (if pc = BLACK then Suc n else n)" using bh ch by simp
            show "path_inv (Suc (if pc = BLACK then Suc n else n)) BLACK path"
              using path_inv_weaken [OF up] by (simp split: if_splits)
            show "root_black path" by (rule rt')
          qed
          then show ?thesis using xb Node BLACK True by simp
        next
          case False
          have "\<exists>t'. delete_case34_right x pk pv pc (Node wl wk wv BLACK wr) path = Some t' \<and> rb_shape t'"
            by (rule delete_case34_right_shape [where n = n]) (use nx xB bal bh ch False up in auto)
          then show ?thesis using xb Node BLACK False
            by (auto simp del: delete_case34_left.simps delete_case34_right.simps)
        qed
      qed
    qed
  qed
qed

lemma rebuild_append: "rebuild t (q @ p) = rebuild (rebuild t q) p"
  by (induction t q rule: rebuild.induct) auto

lemma before_append: "before (q @ p) = before p @ before q"
  by (induction q rule: before.induct) auto

lemma after_append: "after (q @ p) = after q @ after p"
  by (induction q rule: after.induct) auto

lemma search_node_loop_Some:
  "search_node_loop key t path = Some (n, p) \<Longrightarrow>
   \<exists>l v c r. n = Node l key v c r \<and> rebuild n p = rebuild t path"
  by (induction key t path rule: search_node_loop.induct) (auto split: if_splits)

lemma search_node_loop_None:
  "sorted_keys (inorder t) \<Longrightarrow> search_node_loop key t path = None \<Longrightarrow>
   key \<notin> fst ` set (inorder t)"
proof (induction key t path rule: search_node_loop.induct)
  case (1 key path)
  then show ?case by simp
next
  case (2 key l k v c r path)
  from "2.prems"(1) have sl: "sorted_keys (inorder l)" and sr: "sorted_keys (inorder r)"
    and lk: "\<forall>x \<in> set (inorder l). fst x < k" and kr: "\<forall>x \<in> set (inorder r). k < fst x"
    by (auto simp: sorted_keys_append sorted_keys_Cons)
  from "2.prems"(2) have ne: "key \<noteq> k" by (auto split: if_splits)
  show ?case
  proof (cases "key < k")
    case True
    with "2.IH"(1) [OF ne True sl] "2.prems"(2) ne have "key \<notin> fst ` set (inorder l)" by simp
    moreover have "key \<notin> fst ` set (inorder r)" using kr True by force
    ultimately show ?thesis using ne by auto
  next
    case False
    with "2.IH"(2) [OF ne False sr] "2.prems"(2) ne have "key \<notin> fst ` set (inorder r)" by simp
    moreover have "key \<notin> fst ` set (inorder l)" using lk False ne by force
    ultimately show ?thesis using ne by auto
  qed
qed

lemma search_node_loop_mem:
  "search_node_loop key t path = Some (Node l k v c r, p) \<Longrightarrow> (k, v) \<in> set (inorder t)"
  by (induction key t path rule: search_node_loop.induct) (auto split: if_splits)

lemma minimum_Node:
  "t \<noteq> NIL \<Longrightarrow>
   \<exists>yk yv yc yr q. minimum t p = (Node NIL yk yv yc yr, q @ p) \<and>
      rebuild (Node NIL yk yv yc yr) q = t \<and> before q = []"
proof (induction t p rule: minimum.induct)
  case (1 path)
  then show ?case by simp
next
  case (2 l k v c r path)
  show ?case
  proof (cases "l = NIL")
    case True
    then show ?thesis by simp
  next
    case False
    from "2.IH" [OF False False] obtain yk yv yc yr q where
      m: "minimum l (LeftOf k v c r # path) = (Node NIL yk yv yc yr, q @ LeftOf k v c r # path)"
      and rb: "rebuild (Node NIL yk yv yc yr) q = l" and bf: "before q = []"
      by blast
    have "minimum (Node l k v c r) path = (Node NIL yk yv yc yr, (q @ [LeftOf k v c r]) @ path)"
      using m False by simp
    moreover have "rebuild (Node NIL yk yv yc yr) (q @ [LeftOf k v c r]) = Node l k v c r"
      using rb by (simp add: rebuild_append)
    moreover have "before (q @ [LeftOf k v c r]) = []"
      using bf by (simp add: before_append)
    ultimately show ?thesis by blast
  qed
qed

lemma path_inv_retag:
  "path_inv n hc (q @ RightOf l k v c # p) = path_inv n hc (q @ RightOf l k' v' c # p)"
  by (induction n hc q rule: path_inv.induct) auto

lemma root_black_retag:
  "root_black (q @ RightOf l k v c # p) = root_black (q @ RightOf l k' v' c # p)"
proof (induction q rule: root_black.induct)
  case 1
  then show ?case by (cases p) auto
next
  case (2 f)
  then show ?case by (cases p) auto
next
  case (3 f g path)
  then show ?case by simp
qed

lemma drop_key_mid:
  assumes "sorted_keys (ls @ (k, v) # rs)"
  shows "drop_key k (ls @ (k, v) # rs) = ls @ rs"
proof -
  from assms have "\<forall>x \<in> set ls. fst x \<noteq> k" "\<forall>x \<in> set rs. fst x \<noteq> k"
    by (auto simp: sorted_keys_append sorted_keys_Cons)
  then show ?thesis by (simp add: drop_key_def filter_all)
qed

lemma drop_key_absent:
  "k \<notin> fst ` set xs \<Longrightarrow> drop_key k xs = xs"
  by (auto simp: drop_key_def intro!: filter_all)

text \<open>Unlinking a node that has no left child or no right child.\<close>

lemma delete_finish_left_nil:
  assumes "rb_shape (rebuild (Node NIL yk yv yc yr) path)"
  shows "\<exists>t'. delete_finish yc yr path = Some (True, t') \<and> rb_shape t' \<and>
           inorder t' = before path @ inorder yr @ after path"
proof -
  from assms have inv: "no_red_red (Node NIL yk yv yc yr)" "balanced (Node NIL yk yv yc yr)"
    "path_inv (bheight (Node NIL yk yv yc yr)) yc path" "root_black path" "path = [] \<longrightarrow> yc = BLACK"
    by (simp_all add: rb_shape_rebuild_iff)
  show ?thesis
  proof (cases yc)
    case BLACK
    have "\<exists>t'. delete_fixup yr path = Some t' \<and> rb_shape t'"
    proof (rule delete_fixup_shape [where n = 0])
      show "path_inv (Suc 0) BLACK path" using inv(3) BLACK by simp
    qed (use inv in auto)
    then obtain t' where t': "delete_fixup yr path = Some t'" "rb_shape t'" by blast
    with delete_fixup_inorder [OF t'(1)] BLACK show ?thesis
      by (simp add: delete_finish_def)
  next
    case RED
    with inv have "rb_shape (rebuild yr path)"
      unfolding rb_shape_rebuild_iff using path_inv_weaken [OF inv(3)] by auto
    with RED show ?thesis by (simp add: delete_finish_def inorder_rebuild)
  qed
qed

lemma delete_finish_right_nil:
  assumes "rb_shape (rebuild (Node yl yk yv yc NIL) path)"
  shows "\<exists>t'. delete_finish yc yl path = Some (True, t') \<and> rb_shape t' \<and>
           inorder t' = before path @ inorder yl @ after path"
proof -
  from assms have inv: "no_red_red (Node yl yk yv yc NIL)" "balanced (Node yl yk yv yc NIL)"
    "path_inv (bheight (Node yl yk yv yc NIL)) yc path" "root_black path" "path = [] \<longrightarrow> yc = BLACK"
    by (simp_all add: rb_shape_rebuild_iff)
  show ?thesis
  proof (cases yc)
    case BLACK
    have "\<exists>t'. delete_fixup yl path = Some t' \<and> rb_shape t'"
    proof (rule delete_fixup_shape [where n = 0])
      show "path_inv (Suc 0) BLACK path" using inv(2,3) BLACK by simp
    qed (use inv in auto)
    then obtain t' where t': "delete_fixup yl path = Some t'" "rb_shape t'" by blast
    with delete_fixup_inorder [OF t'(1)] BLACK show ?thesis
      by (simp add: delete_finish_def)
  next
    case RED
    with inv have "rb_shape (rebuild yl path)"
      unfolding rb_shape_rebuild_iff using path_inv_weaken [OF inv(3)] by auto
    with RED show ?thesis by (simp add: delete_finish_def inorder_rebuild)
  qed
qed

subsection \<open>The operations as operations on the sequence of entries\<close>

lemma sorted_put_entry: "sorted_keys xs \<Longrightarrow> sorted_keys (put_entry k v xs)"
  unfolding sorted_keys_def put_entry_def
  by (auto simp: sorted_wrt_append sorted_wrt_map sorted_wrt_filter)

lemma sorted_drop_key: "sorted_keys xs \<Longrightarrow> sorted_keys (drop_key k xs)"
  unfolding sorted_keys_def drop_key_def
  by (simp add: sorted_wrt_map sorted_wrt_filter)

lemma set_put_entry: "set (put_entry k v xs) = {x \<in> set xs. fst x \<noteq> k} \<union> {(k, v)}"
  by (auto simp: put_entry_def)

lemma set_drop_key: "set (drop_key k xs) = {x \<in> set xs. fst x \<noteq> k}"
  by (auto simp: drop_key_def)

lemma sorted_keys_distinct: "sorted_keys xs \<Longrightarrow> distinct (map fst xs)"
  unfolding sorted_keys_def by (induction xs) auto

lemma insert_ok:
  assumes "rb_shape t" "sorted_keys (inorder t)"
  shows "\<exists>t'. insert key val t = Some t' \<and> rb_shape t' \<and>
           inorder t' = put_entry key val (inorder t)"
proof -
  from insert_loop_shape [of t "[]" key val] assms(1) obtain t' where
    t': "insert_loop key val t [] = Some t'" "rb_shape t'" by auto
  from insert_loop_inorder [OF assms(2) t'(1)] t' show ?thesis
    by (simp add: insert_def)
qed

lemma delete_ok:
  assumes "rb_shape t" "sorted_keys (inorder t)"
  shows "\<exists>t'. delete t key = Some (key \<in> fst ` set (inorder t), t') \<and> rb_shape t' \<and>
           inorder t' = drop_key key (inorder t)"
proof (cases "search_node t key")
  case None
  then have "key \<notin> fst ` set (inorder t)"
    using search_node_loop_None [OF assms(2), of key "[]"] by (simp add: search_node_def)
  with None assms show ?thesis by (simp add: delete_def drop_key_absent)
next
  case (Some loc)
  obtain n path where loc: "loc = (n, path)" by (cases loc)
  with Some have sn: "search_node_loop key t [] = Some (n, path)" by (simp add: search_node_def)
  from search_node_loop_Some [OF sn] obtain zl zv zc zr where
    n: "n = Node zl key zv zc zr" and rb: "rebuild n path = t" by auto
  have io: "inorder t = before path @ inorder zl @ (key, zv) # inorder zr @ after path"
    using rb n inorder_rebuild [of n path] by simp
  then have mem: "key \<in> fst ` set (inorder t)" by force
  have shp: "rb_shape (rebuild (Node zl key zv zc zr) path)" using assms(1) rb n by simp
  show ?thesis
  proof (cases "zl = NIL")
    case True
    from delete_finish_left_nil [of key zv zc zr path] shp True obtain t' where
      t': "delete_finish zc zr path = Some (True, t')" "rb_shape t'"
      "inorder t' = before path @ inorder zr @ after path" by auto
    have "drop_key key (inorder t) = before path @ inorder zr @ after path"
      using drop_key_mid [of "before path" key zv "inorder zr @ after path"] assms(2) io True
      by simp
    with t' Some loc n True mem show ?thesis by (simp add: delete_def)
  next
    case zlN: False
    show ?thesis
    proof (cases "zr = NIL")
      case True
      from delete_finish_right_nil [of zl key zv zc path] shp True obtain t' where
        t': "delete_finish zc zl path = Some (True, t')" "rb_shape t'"
        "inorder t' = before path @ inorder zl @ after path" by auto
      have "drop_key key (inorder t) = before path @ inorder zl @ after path"
        using drop_key_mid [of "before path @ inorder zl" key zv "after path"] assms(2) io True
        by simp
      with t' Some loc n True zlN mem show ?thesis by (simp add: delete_def)
    next
      case zrN: False
      from minimum_Node [OF zrN, of "[]"] obtain yk yv yc yr q where
        m: "minimum zr [] = (Node NIL yk yv yc yr, q)"
        and ry: "rebuild (Node NIL yk yv yc yr) q = zr" and bq: "before q = []"
        by auto
      let ?y = "Node NIL yk yv yc yr"
      have "rebuild ?y (q @ RightOf zl key zv zc # path) = t"
        using ry rb n by (simp add: rebuild_append)
      with assms(1) have "rb_shape (rebuild ?y (q @ RightOf zl key zv zc # path))" by simp
      then have "rb_shape (rebuild ?y (q @ RightOf zl yk yv zc # path))"
        unfolding rb_shape_rebuild_iff
        using path_inv_retag [of _ _ q zl key zv zc path yk yv]
          root_black_retag [of q zl key zv zc path yk yv]
        by simp
      from delete_finish_left_nil [OF this] obtain t' where
        t': "delete_finish yc yr (q @ RightOf zl yk yv zc # path) = Some (True, t')" "rb_shape t'"
        "inorder t' = before (q @ RightOf zl yk yv zc # path) @ inorder yr
                        @ after (q @ RightOf zl yk yv zc # path)" by auto
      have izr: "inorder zr = (yk, yv) # inorder yr @ after q"
        using ry inorder_rebuild [of ?y q] bq by simp
      have "drop_key key (inorder t) = before path @ inorder zl @ inorder zr @ after path"
        using drop_key_mid [of "before path @ inorder zl" key zv "inorder zr @ after path"]
          assms(2) io by simp
      then have "inorder t' = drop_key key (inorder t)"
        using t'(3) izr bq by (simp add: before_append after_append)
      with t' Some loc n zlN zrN m mem show ?thesis by (simp add: delete_def)
    qed
  qed
qed

lemma search_ok:
  assumes "sorted_keys (inorder t)"
  shows "search t key = map_of (inorder t) key"
proof (cases "search_node t key")
  case None
  then have "key \<notin> fst ` set (inorder t)"
    using search_node_loop_None [OF assms, of key "[]"] by (simp add: search_node_def)
  then have "map_of (inorder t) key = None" by (simp add: map_of_eq_None_iff)
  with None show ?thesis by (simp add: search_def)
next
  case (Some loc)
  obtain n path where loc: "loc = (n, path)" by (cases loc)
  with Some have sn: "search_node_loop key t [] = Some (n, path)" by (simp add: search_node_def)
  from search_node_loop_Some [OF sn] obtain l v c r where n: "n = Node l key v c r" by auto
  with sn have "(key, v) \<in> set (inorder t)" using search_node_loop_mem by fastforce
  then have "map_of (inorder t) key = Some v"
    using sorted_keys_distinct [OF assms] by simp
  with Some loc n show ?thesis by (simp add: search_def)
qed

lemma search_node_None_iff:
  assumes "sorted_keys (inorder t)"
  shows "(search_node t key = None) = (key \<notin> fst ` set (inorder t))"
proof (cases "search_node t key")
  case None
  then show ?thesis
    using search_node_loop_None [OF assms, of key "[]"] by (simp add: search_node_def)
next
  case (Some loc)
  obtain n path where loc: "loc = (n, path)" by (cases loc)
  with Some have sn: "search_node_loop key t [] = Some (n, path)" by (simp add: search_node_def)
  from search_node_loop_Some [OF sn] obtain l v c r where n: "n = Node l key v c r" by auto
  with sn have "(key, v) \<in> set (inorder t)" using search_node_loop_mem by fastforce
  then have "key \<in> fst ` set (inorder t)" by force
  with Some show ?thesis by simp
qed

lemma set_value_ok:
  assumes "rb_shape t" "sorted_keys (inorder t)" "search_node t key = Some loc"
  shows "rb_shape (set_value val loc) \<and> inorder (set_value val loc) = put_entry key val (inorder t)
         \<and> (\<exists>v. value_of loc = Some v \<and> (key, v) \<in> set (inorder t))"
proof -
  obtain n path where loc: "loc = (n, path)" by (cases loc)
  with assms(3) have sn: "search_node_loop key t [] = Some (n, path)" by (simp add: search_node_def)
  from search_node_loop_Some [OF sn] obtain l v c r where
    n: "n = Node l key v c r" and rb: "rebuild n path = t" by auto
  have io: "inorder t = before path @ inorder l @ (key, v) # inorder r @ after path"
    using rb n inorder_rebuild [of n path] by simp
  with assms(2) have lk: "\<forall>x \<in> set (before path @ inorder l). fst x < key"
    and kr: "\<forall>x \<in> set (inorder r @ after path). key < fst x"
    by (auto simp: sorted_keys_append sorted_keys_Cons)
  have "put_entry key val (inorder t) = before path @ inorder l @ (key, val) # inorder r @ after path"
    using put_entry_here [OF lk kr, of val v] io by simp
  moreover have "rb_shape (rebuild (Node l key val c r) path)"
  proof -
    have "rb_shape (rebuild (Node l key v c r) path)" using assms(1) rb n by simp
    then show ?thesis by (simp add: rb_shape_rebuild_iff)
  qed
  moreover have "(key, v) \<in> set (inorder t)" using io by simp
  ultimately show ?thesis using loc n by (simp add: inorder_rebuild)
qed

lemma tree_ok_NIL [simp]: "tree_ok NIL"
  by (simp add: tree_ok_def rb_shape_def)

lemma apply_tree_op_ok:
  "tree_ok t \<Longrightarrow> \<exists>t'. apply_tree_op x t = Some t' \<and> tree_ok t'"
proof (cases x)
  case (Insert key val)
  assume "tree_ok t"
  with insert_ok [of t key val] Insert show ?thesis
    by (auto simp: tree_ok_def sorted_put_entry)
next
  case (Delete key)
  assume "tree_ok t"
  with delete_ok [of t key] Delete show ?thesis
    by (auto simp: tree_ok_def sorted_drop_key)
qed

lemma run_tree_ops_ok:
  "tree_ok t \<Longrightarrow> \<exists>t'. run_tree_ops xs t = Some t' \<and> tree_ok t'"
proof (induction xs arbitrary: t)
  case Nil
  then show ?case by simp
next
  case (Cons x xs)
  from apply_tree_op_ok [OF Cons.prems, of x] obtain t1 where
    "apply_tree_op x t = Some t1" "tree_ok t1" by blast
  with Cons.IH [of t1] show ?case by simp
qed

lemma skeleton_rebuild:
  "skeleton n = skeleton n' \<Longrightarrow> skeleton (rebuild n path) = skeleton (rebuild n' path)"
  by (induction n path arbitrary: n' rule: rebuild.induct) auto

lemma insert_loop_existing:
  "search_node_loop key t path = Some n \<Longrightarrow> insert_loop key val t path = Some (set_value val n)"
  by (induction key t path rule: search_node_loop.induct) (auto split: if_splits)

lemma search_node_loop_set_value:
  "search_node_loop key t path = Some n \<Longrightarrow> 
   skeleton (set_value val n) = skeleton (rebuild t path)"
  by (induction key t path rule: search_node_loop.induct)
     (auto split: if_splits intro!: skeleton_rebuild)

subsection \<open>The catalog invariant\<close>

lemma delete_keys_ok:
  "tree_ok t \<Longrightarrow>
   \<exists>t'. delete_keys ks t = Some t' \<and> tree_ok t' \<and>
        inorder t' = filter (\<lambda>x. fst x \<notin> set ks) (inorder t)"
proof (induction ks arbitrary: t)
  case Nil
  then show ?case by simp
next
  case (Cons k ks)
  from delete_ok [of t k] Cons.prems obtain t1 where
    t1: "delete t k = Some (k \<in> fst ` set (inorder t), t1)" "tree_ok t1"
    "inorder t1 = drop_key k (inorder t)"
    by (auto simp: tree_ok_def sorted_drop_key)
  from Cons.IH [OF t1(2)] obtain t' where
    t': "delete_keys ks t1 = Some t'" "tree_ok t'"
    "inorder t' = filter (\<lambda>x. fst x \<notin> set ks) (inorder t1)" by blast
  have "inorder t' = filter (\<lambda>x. fst x \<notin> set (k # ks)) (inorder t)"
    using t'(3) t1(3) by (auto simp: drop_key_def intro: filter_cong)
  with t1 t' show ?case by simp
qed

lemma remove_title_nodes_ok:
  assumes "tree_ok t"
  shows "\<exists>t'. remove_title_nodes_for_id bid t = Some t' \<and> tree_ok t' \<and>
           inorder t' = filter (\<lambda>x. snd (fst x) \<noteq> bid) (inorder t)"
proof -
  let ?ks = "filter (\<lambda>key. snd key = bid) (map fst (inorder t))"
  from delete_keys_ok [OF assms, of ?ks] obtain t' where
    t': "delete_keys ?ks t = Some t'" "tree_ok t'"
    "inorder t' = filter (\<lambda>x. fst x \<notin> set ?ks) (inorder t)" by blast
  have "filter (\<lambda>x. fst x \<notin> set ?ks) (inorder t) = filter (\<lambda>x. snd (fst x) \<noteq> bid) (inorder t)"
    by (rule filter_cong) auto
  with t' show ?thesis by (simp add: remove_title_nodes_for_id_def)
qed

lemma tree_ok_insert:
  assumes "tree_ok t"
  shows "\<exists>t'. insert key val t = Some t' \<and> tree_ok t' \<and>
           inorder t' = put_entry key val (inorder t)"
  using insert_ok [of t key val] assms by (auto simp: tree_ok_def sorted_put_entry)

lemma tree_ok_delete:
  assumes "tree_ok t"
  shows "\<exists>t'. delete t key = Some (key \<in> fst ` set (inorder t), t') \<and> tree_ok t' \<and>
           inorder t' = drop_key key (inorder t)"
  using delete_ok [of t key] assms by (auto simp: tree_ok_def sorted_drop_key)

lemma put_entry_absent_set:
  "set (put_entry k v xs) = {x \<in> set xs. fst x \<noteq> k} \<union> {(k, v)}"
  by (rule set_put_entry)

lemma add_book_ok:
  assumes "cat_inv cat"
  shows "\<exists>cat'. add_book b cat =
            Some (if book_id b \<in> fst ` set (inorder (by_id cat)) then ''updated'' else ''inserted'', cat')
          \<and> cat_inv cat'
          \<and> inorder (by_id cat') = put_entry (book_id b) b (inorder (by_id cat))
          \<and> inorder (by_title cat') =
              put_entry (title_key b) b
                (filter (\<lambda>x. snd (fst x) \<noteq> book_id b) (inorder (by_title cat)))"
proof -
  let ?S = "inorder (by_id cat)" and ?T = "inorder (by_title cat)"
  let ?f = "\<lambda>x::int \<times> book. (title_key (snd x), snd x)"
  from assms have ok: "tree_ok (by_id cat)" "tree_ok (by_title cat)"
    and ids: "\<forall>x \<in> set ?S. book_id (snd x) = fst x"
    and img: "set ?T = ?f ` set ?S"
    by (simp_all add: cat_inv_def)
  have srt: "sorted_keys ?S" using ok by (simp add: tree_ok_def)
  from remove_title_nodes_ok [OF ok(2), of "book_id b"] obtain t1 where
    t1: "remove_title_nodes_for_id (book_id b) (by_title cat) = Some t1" "tree_ok t1"
    "inorder t1 = filter (\<lambda>x. snd (fst x) \<noteq> book_id b) ?T" by blast
  from tree_ok_insert [OF t1(2), of "title_key b" b] obtain t2 where
    t2: "insert (title_key b) b t1 = Some t2" "tree_ok t2"
    "inorder t2 = put_entry (title_key b) b (inorder t1)" by blast
  have T1: "set (inorder t1) = ?f ` {x \<in> set ?S. fst x \<noteq> book_id b}"
    using t1(3) img ids by (auto simp: title_key_def image_iff)
  have newS: "set (put_entry (book_id b) b ?S) = {x \<in> set ?S. fst x \<noteq> book_id b} \<union> {(book_id b, b)}"
    by (rule set_put_entry)
  have newT: "set (put_entry (title_key b) b (inorder t1))
                 = ?f ` ({x \<in> set ?S. fst x \<noteq> book_id b} \<union> {(book_id b, b)})"
  proof -
    have "{x \<in> set (inorder t1). fst x \<noteq> title_key b} = set (inorder t1)"
      using T1 ids by (auto simp: title_key_def)
    then show ?thesis using T1 by (simp add: set_put_entry)
  qed
  have ids': "\<forall>x \<in> set (put_entry (book_id b) b ?S). book_id (snd x) = fst x"
    using ids by (auto simp: set_put_entry)
  show ?thesis
  proof (cases "search_node (by_id cat) (book_id b)")
    case None
    then have absent: "book_id b \<notin> fst ` set ?S"
      using search_node_None_iff [OF srt] by simp
    from tree_ok_insert [OF ok(1), of "book_id b" b] obtain i1 where
      i1: "insert (book_id b) b (by_id cat) = Some i1" "tree_ok i1"
      "inorder i1 = put_entry (book_id b) b ?S" by blast
    have same: "filter (\<lambda>x. snd (fst x) \<noteq> book_id b) ?T = ?T"
    proof (rule filter_all, rule ballI)
      fix x assume "x \<in> set ?T"
      then obtain y where "y \<in> set ?S" "x = ?f y" using img by auto
      with ids absent show "snd (fst x) \<noteq> book_id b"
        by (auto simp: title_key_def image_iff)
    qed
    from tree_ok_insert [OF ok(2), of "title_key b" b] obtain t3 where
      t3: "insert (title_key b) b (by_title cat) = Some t3" "tree_ok t3"
      "inorder t3 = put_entry (title_key b) b ?T" by blast
    have "cat_inv \<lparr>by_id = i1, by_title = t3\<rparr>"
      using i1 t3 ids' newT newS t1(3) same by (simp add: cat_inv_def)
    with None i1 t3 absent same show ?thesis
      by (simp add: add_book_def title_key_def)
  next
    case (Some existing)
    then have present: "book_id b \<in> fst ` set ?S"
      using search_node_None_iff [OF srt, of "book_id b"] by simp
    from set_value_ok [of "by_id cat" "book_id b" existing b] ok(1) Some
    have sv: "tree_ok (set_value b existing)"
      "inorder (set_value b existing) = put_entry (book_id b) b ?S"
      by (auto simp: tree_ok_def sorted_put_entry)
    have "cat_inv \<lparr>by_id = set_value b existing, by_title = t2\<rparr>"
      using sv t2 ids' newT newS by (simp add: cat_inv_def)
    with Some t1 t2 sv present show ?thesis
      by (simp add: add_book_def title_key_def)
  qed
qed

lemma delete_by_id_ok:
  assumes "cat_inv cat"
  shows "\<exists>cat'. delete_by_id bid cat = Some (bid \<in> fst ` set (inorder (by_id cat)), cat')
          \<and> cat_inv cat'
          \<and> inorder (by_id cat') = drop_key bid (inorder (by_id cat))
          \<and> (bid \<notin> fst ` set (inorder (by_id cat)) \<longrightarrow> cat' = cat)"
proof -
  let ?S = "inorder (by_id cat)" and ?T = "inorder (by_title cat)"
  let ?f = "\<lambda>x::int \<times> book. (title_key (snd x), snd x)"
  from assms have ok: "tree_ok (by_id cat)" "tree_ok (by_title cat)"
    and ids: "\<forall>x \<in> set ?S. book_id (snd x) = fst x"
    and img: "set ?T = ?f ` set ?S"
    by (simp_all add: cat_inv_def)
  have srt: "sorted_keys ?S" using ok by (simp add: tree_ok_def)
  show ?thesis
  proof (cases "search_node (by_id cat) bid")
    case None
    then have "bid \<notin> fst ` set ?S"
      using search_node_None_iff [OF srt] by simp
    with None assms show ?thesis
      by (simp add: delete_by_id_def drop_key_absent)
  next
    case (Some book_node)
    then have present: "bid \<in> fst ` set ?S"
      using search_node_None_iff [OF srt, of bid] by simp
    from set_value_ok [of "by_id cat" bid book_node undefined] ok(1) Some obtain b where
      b: "value_of book_node = Some b" "(bid, b) \<in> set ?S"
      by (auto simp: tree_ok_def)
    from b(2) ids have bid: "book_id b = bid" by force
    from tree_ok_delete [OF ok(1), of bid] obtain i1 where
      i1: "delete (by_id cat) bid = Some (bid \<in> fst ` set ?S, i1)" "tree_ok i1"
      "inorder i1 = drop_key bid ?S" by blast
    from tree_ok_delete [OF ok(2), of "title_key b"] obtain t1 where
      t1: "delete (by_title cat) (title_key b) = Some (title_key b \<in> fst ` set ?T, t1)"
      "tree_ok t1" "inorder t1 = drop_key (title_key b) ?T" by blast
    have uniq: "\<And>b'. (bid, b') \<in> set ?S \<Longrightarrow> b' = b"
      using sorted_keys_distinct [OF srt] b(2) by (meson eq_key_imp_eq_value)
    have "set (inorder t1) = ?f ` set (inorder i1)"
    proof
      show "set (inorder t1) \<subseteq> ?f ` set (inorder i1)"
      proof
        fix x assume "x \<in> set (inorder t1)"
        then have xT: "x \<in> set ?T" and ne: "fst x \<noteq> title_key b"
          using t1(3) by (auto simp: set_drop_key)
        from xT img obtain y where y: "y \<in> set ?S" "x = ?f y" by auto
        have "fst y \<noteq> bid"
        proof
          assume "fst y = bid"
          with y(1) uniq [of "snd y"] have "snd y = b" by (cases y) auto
          with y(2) ne show False by simp
        qed
        with y show "x \<in> ?f ` set (inorder i1)"
          using i1(3) by (auto simp: set_drop_key)
      qed
    next
      show "?f ` set (inorder i1) \<subseteq> set (inorder t1)"
      proof
        fix x assume "x \<in> ?f ` set (inorder i1)"
        then obtain y where y: "y \<in> set ?S" "fst y \<noteq> bid" "x = ?f y"
          using i1(3) by (auto simp: set_drop_key)
        from y(1) ids have "book_id (snd y) = fst y" by auto
        with y(2) bid have "fst x \<noteq> title_key b"
          using y(3) by (auto simp: title_key_def)
        moreover have "x \<in> set ?T" using y img by auto
        ultimately show "x \<in> set (inorder t1)"
          using t1(3) by (auto simp: set_drop_key)
      qed
    qed
    moreover have "\<forall>x \<in> set (inorder i1). book_id (snd x) = fst x"
      using ids i1(3) by (auto simp: set_drop_key)
    ultimately have "cat_inv \<lparr>by_id = i1, by_title = t1\<rparr>"
      using i1 t1 by (simp add: cat_inv_def)
    with Some b i1 t1 present bid show ?thesis
      by (simp add: delete_by_id_def title_key_def)
  qed
qed

lemma cat_inv_new [simp]: "cat_inv new_catalog"
  by (simp add: cat_inv_def new_catalog_def)

lemma apply_op_ok: "cat_inv cat \<Longrightarrow> \<exists>cat'. apply_op x cat = Some cat' \<and> cat_inv cat'"
proof (cases x)
  case (AddBook b)
  assume "cat_inv cat"
  from add_book_ok [OF this, of b] AddBook show ?thesis by auto
next
  case (DeleteById bid)
  assume "cat_inv cat"
  from delete_by_id_ok [OF this, of bid] DeleteById show ?thesis by auto
next
  case Clear
  then show ?thesis by simp
qed

lemma run_ok: "cat_inv cat \<Longrightarrow> \<exists>cat'. run xs cat = Some cat' \<and> cat_inv cat'"
proof (induction xs arbitrary: cat)
  case Nil
  then show ?case by simp
next
  case (Cons x xs)
  from apply_op_ok [OF Cons.prems, of x] obtain c1 where
    "apply_op x cat = Some c1" "cat_inv c1" by blast
  with Cons.IH [of c1] show ?case by simp
qed

lemma cat_inv_search_by_id:
  assumes "cat_inv cat" "x \<in> set (inorder (by_id cat))"
  shows "search_by_id cat (fst x) = Some (snd x)"
proof -
  from assms(1) have srt: "sorted_keys (inorder (by_id cat))"
    by (simp add: cat_inv_def tree_ok_def)
  from sorted_keys_distinct [OF srt] assms(2)
  have "map_of (inorder (by_id cat)) (fst x) = Some (snd x)" by simp
  then show ?thesis by (simp add: search_by_id_def search_ok [OF srt])
qed

lemma cat_inv_cross_index: "cat_inv cat \<Longrightarrow> cross_index cat"
proof -
  assume inv: "cat_inv cat"
  let ?S = "inorder (by_id cat)" and ?T = "inorder (by_title cat)"
  from inv have ids: "\<forall>x \<in> set ?S. book_id (snd x) = fst x"
    and img: "set ?T = (\<lambda>x. (title_key (snd x), snd x)) ` set ?S"
    by (simp_all add: cat_inv_def)
  have "id_index_ids cat = title_index_ids cat"
    unfolding id_index_ids_def title_index_ids_def img
    using ids by (force simp: title_key_def image_iff)
  moreover have "list_all (\<lambda>x. case search_by_id cat (snd (fst x)) of
                       None \<Rightarrow> False
                     | Some b \<Rightarrow> fst (fst x) = lower (title b)) ?T"
    unfolding list_all_iff
  proof
    fix x assume "x \<in> set ?T"
    with img obtain y where y: "y \<in> set ?S" "x = (title_key (snd y), snd y)" by auto
    from y(1) ids have "book_id (snd y) = fst y" by auto
    with cat_inv_search_by_id [OF inv y(1)] y(2)
    show "case search_by_id cat (snd (fst x)) of None \<Rightarrow> False
          | Some b \<Rightarrow> fst (fst x) = lower (title b)"
      by (simp add: title_key_def)
  qed
  ultimately show ?thesis by (simp add: cross_index_def)
qed

lemma filter_keys_below:
  fixes k :: "'k::linorder"
  shows "filter (\<lambda>x. fst x < k) (filter P (filter (\<lambda>x. fst x < k) xs))
           = filter (\<lambda>x. fst x < k) (filter P xs)"
    and "filter (\<lambda>x. fst x < k) (filter P (filter (\<lambda>x. k < fst x) xs)) = []"
  by (induction xs) auto

lemma filter_keys_above:
  fixes k :: "'k::linorder"
  shows "filter (\<lambda>x. k < fst x) (filter P (filter (\<lambda>x. k < fst x) xs))
           = filter (\<lambda>x. k < fst x) (filter P xs)"
    and "filter (\<lambda>x. k < fst x) (filter P (filter (\<lambda>x. fst x < k) xs)) = []"
  by (induction xs) auto

lemma put_entry_filter_put_entry:
  "put_entry k v (filter P (put_entry k v xs)) = put_entry k v (filter P xs)"
proof -
  have a: "filter (\<lambda>x. fst x < k) (filter P (put_entry k v xs)) = filter (\<lambda>x. fst x < k) (filter P xs)"
    unfolding put_entry_def
    by (simp add: filter_keys_below del: filter_filter)
  have b: "filter (\<lambda>x. k < fst x) (filter P (put_entry k v xs)) = filter (\<lambda>x. k < fst x) (filter P xs)"
    unfolding put_entry_def
    by (simp add: filter_keys_above del: filter_filter)
  show ?thesis
    unfolding put_entry_def [of k v "filter P (put_entry k v xs)"] a b
    by (simp add: put_entry_def)
qed

lemma put_entry_idem: "put_entry k v (put_entry k v xs) = put_entry k v xs"
  using put_entry_filter_put_entry [of k v "\<lambda>x. True" xs] by simp

lemma cat_inv_listings:
  assumes "cat_inv cat"
  shows "mset (list_all_by_title cat) = mset (list_all_by_id cat)"
proof -
  let ?S = "inorder (by_id cat)" and ?T = "inorder (by_title cat)"
  let ?f = "\<lambda>x::int \<times> book. (title_key (snd x), snd x)"
  from assms have srtS: "sorted_keys ?S" and srtT: "sorted_keys ?T"
    and ids: "\<forall>x \<in> set ?S. book_id (snd x) = fst x"
    and img: "set ?T = ?f ` set ?S"
    by (simp_all add: cat_inv_def tree_ok_def)
  have dS: "distinct ?S" using sorted_keys_distinct [OF srtS] by (simp add: distinct_map)
  have dT: "distinct ?T" using sorted_keys_distinct [OF srtT] by (simp add: distinct_map)
  have inj: "inj_on ?f (set ?S)"
  proof (rule inj_onI)
    fix x y assume a: "x \<in> set ?S" "y \<in> set ?S" "?f x = ?f y"
    then have "snd x = snd y" by simp
    moreover have "fst x = book_id (snd x)" "fst y = book_id (snd y)"
      using ids a(1,2) by auto
    ultimately show "x = y" by (simp add: prod_eq_iff)
  qed
  have dm: "distinct (map ?f ?S)" using dS inj by (simp add: distinct_map)
  have se: "set (map ?f ?S) = set ?T" using img by simp
  have "mset (map ?f ?S) = mset ?T"
    by (rule iffD1 [OF set_eq_iff_mset_eq_distinct [OF dm dT] se])
  then have E: "mset ?T = image_mset ?f (mset ?S)" by simp
  have "image_mset snd (mset ?T) = image_mset snd (mset ?S)"
    unfolding E by (simp add: image_mset.compositionality comp_def)
  then show ?thesis
    by (simp add: list_all_by_id_def list_all_by_title_def)
qed

subsection \<open>The bulk load\<close>

lemma inorder_map_values:
  "inorder (map_values f t) = map (\<lambda>x. (fst x, f (snd x))) (inorder t)"
  by (induction t) auto

lemma color_of_map_values [simp]: "color_of (map_values f t) = color_of t"
  by (cases t) auto

lemma bheight_map_values [simp]: "bheight (map_values f t) = bheight t"
  by (induction t) auto

lemma no_red_red_map_values [simp]: "no_red_red (map_values f t) = no_red_red t"
  by (induction t) auto

lemma balanced_map_values [simp]: "balanced (map_values f t) = balanced t"
  by (induction t) auto

lemma tree_ok_map_values [simp]: "tree_ok (map_values f t) = tree_ok t"
  by (simp add: tree_ok_def rb_shape_def sorted_keys_def inorder_map_values comp_def)






section \<open>Properties of the catalog\<close>

text \<open>
  C1 (as amended).  After every sequence of \<^verbatim>\<open>add_book\<close>, \<^verbatim>\<open>delete_by_id\<close> and clear
  operations from the empty catalog, the identifiers that are keys of \<^verbatim>\<open>by_id\<close> are the
  identifiers that are second components of the keys of \<^verbatim>\<open>by_title\<close>, and the first
  component of every \<^verbatim>\<open>by_title\<close> key is the lower-cased \<^verbatim>\<open>title\<close> of the record that
  \<^verbatim>\<open>by_id\<close> stores under the key's identifier.
\<close>

theorem cross_index_holds:
  "\<exists>cat. run ops new_catalog = Some cat \<and> cross_index cat"
  using run_ok [OF cat_inv_new, of ops] cat_inv_cross_index by blast

theorem cross_index_holds_witness:
  "\<exists>cat. run [AddBook \<lparr>book_id = 101, title = ''Title A'', author = ''x'', year = 2001, copies = 1\<rparr>,
               AddBook \<lparr>book_id = 7, title = ''Zed'', author = ''y'', year = 1999, copies = 2\<rparr>,
               AddBook \<lparr>book_id = 101, title = ''Title B'', author = ''x'', year = 2001, copies = 1\<rparr>,
               DeleteById 7, Clear,
               AddBook \<lparr>book_id = 5, title = ''Five'', author = ''z'', year = 2005, copies = 5\<rparr>]
           new_catalog = Some cat \<and> cross_index cat"
  by (rule cross_index_holds)

text \<open>
  With the \<^verbatim>\<open>title\<close> field itself in place of its lower-cased form the property fails as
  soon as a title has an upper-case letter: after \<^verbatim>\<open>add_book\<close> of record 101 titled
  "Title A" the key of \<^verbatim>\<open>by_title\<close> is \<open>(''title a'', 101)\<close>.
\<close>

theorem cross_index_as_claimed_counterexample:
  "run [AddBook \<lparr>book_id = 101, title = ''Title A'', author = [], year = 0, copies = 1\<rparr>] new_catalog
     = Some \<lparr>by_id = Node NIL 101
                 \<lparr>book_id = 101, title = ''Title A'', author = [], year = 0, copies = 1\<rparr> BLACK NIL,
             by_title = Node NIL (''title a'', 101)
                 \<lparr>book_id = 101, title = ''Title A'', author = [], year = 0, copies = 1\<rparr> BLACK NIL\<rparr> \<and>
   \<not> cross_index_as_claimed
       \<lparr>by_id = Node NIL 101
                 \<lparr>book_id = 101, title = ''Title A'', author = [], year = 0, copies = 1\<rparr> BLACK NIL,
        by_title = Node NIL (''title a'', 101)
                 \<lparr>book_id = 101, title = ''Title A'', author = [], year = 0, copies = 1\<rparr> BLACK NIL\<rparr>"
  by code_simp

text \<open>
  C2.  Starting from the empty tree, every sequence of \<^verbatim>\<open>insert\<close> and \<^verbatim>\<open>delete\<close> calls runs
  without writing to the sentinel and leaves a tree whose root is BLACK, in which no RED
  node has a RED child, and in which all paths from the root to the sentinel hold the
  same number of BLACK nodes.  Since this holds for every sequence, it holds after each
  operation of a sequence.
\<close>

theorem red_black_after_every_operation:
  "\<exists>t. run_tree_ops ops NIL = Some t \<and> red_black t"
  using run_tree_ops_ok [OF tree_ok_NIL, of ops] by (auto simp: tree_ok_def red_black_iff)

theorem red_black_after_every_operation_witness:
  "\<exists>t. run_tree_ops [Insert (3::int) ''c'', Insert 1 ''a'', Insert 2 ''b'', Delete 3, Insert 1 ''z'', Delete 7]
          NIL = Some t \<and> red_black t"
  by (rule red_black_after_every_operation)

text \<open>
  C3 (evaluated at the input where the code departs from it).  The catalog holds the
  single record with identifier \<open>- 2 ^ 63\<close>, the least 64-bit identifier, and title "A";
  \<^verbatim>\<open>search_by_title_exact("A")\<close> returns the empty list although the record's folded
  title equals the folded query.  The scan is anchored at \<^verbatim>\<open>(tkey, -sys.maxsize)\<close>, one
  above the least 64-bit integer, so the key \<open>(''a'', - 2 ^ 63)\<close> lies before the anchor.
\<close>

theorem search_by_title_exact_misses_least_id:
  "(case add_book \<lparr>book_id = - (2 ^ 63), title = ''A'', author = [], year = 0, copies = 1\<rparr>
           new_catalog of
      None \<Rightarrow> False
    | Some (status, cat) \<Rightarrow>
        list_all_by_title cat =
          [\<lparr>book_id = - (2 ^ 63), title = ''A'', author = [], year = 0, copies = 1\<rparr>] \<and>
        search_by_title_exact cat ''A'' = [])"
  by code_simp

text \<open>
  C4.  When \<^verbatim>\<open>search_node\<close> finds the key, \<^verbatim>\<open>insert(key, value)\<close> does exactly the assignment
  \<^verbatim>\<open>x.value = value\<close> on the node found: the result is the tree with that node's value
  replaced, at the same place, and its shape, keys and colours (the tree with the values
  erased) are those of the tree before; \<^verbatim>\<open>_insert_fixup\<close> is not run.
\<close>

theorem insert_existing_key_replaces_value:
  assumes "search_node root key = Some n"
  shows "insert key val root = Some (set_value val n) \<and>
         skeleton (set_value val n) = skeleton root"
  using assms insert_loop_existing [of key root "[]" n val]
    search_node_loop_set_value [of key root "[]" n val]
  by (simp add: insert_def search_node_def)

theorem insert_existing_key_replaces_value_witness:
  "search_node (Node (Node NIL (1::int) ''a'' RED NIL) 2 ''b'' BLACK NIL) 1
     = Some (Node NIL 1 ''a'' RED NIL, [LeftOf 2 ''b'' BLACK NIL]) \<and>
   insert 1 ''z'' (Node (Node NIL (1::int) ''a'' RED NIL) 2 ''b'' BLACK NIL)
     = Some (Node (Node NIL 1 ''z'' RED NIL) 2 ''b'' BLACK NIL) \<and>
   skeleton (Node (Node NIL (1::int) ''z'' RED NIL) 2 ''b'' BLACK NIL)
     = skeleton (Node (Node NIL (1::int) ''a'' RED NIL) 2 ''b'' BLACK NIL)"
  using insert_existing_key_replaces_value
    [of "Node (Node NIL (1::int) ''a'' RED NIL) 2 ''b'' BLACK NIL" 1
        "(Node NIL 1 ''a'' RED NIL, [LeftOf 2 ''b'' BLACK NIL])" "''z''"]
  by (simp add: search_node_def)

text \<open>
  C5.  In a catalog reached by any sequence of operations, for a record \<open>r\<close> whose
  identifier \<^verbatim>\<open>search_by_id\<close> does not find, \<^verbatim>\<open>add_book(r)\<close> returns "inserted", a second
  \<^verbatim>\<open>add_book(r)\<close> returns "updated", and the entries of both indices (keys and records, in
  order) after the second call are those after the first.
\<close>

theorem add_book_twice:
  assumes "run ops new_catalog = Some cat" and "search_by_id cat (book_id r) = None"
  shows "\<exists>c1 c2. add_book r cat = Some (''inserted'', c1) \<and>
                 add_book r c1 = Some (''updated'', c2) \<and>
                 inorder (by_id c2) = inorder (by_id c1) \<and>
                 inorder (by_title c2) = inorder (by_title c1)"
proof -
  from run_ok [OF cat_inv_new, of ops] assms(1) have inv: "cat_inv cat" by auto
  then have srt: "sorted_keys (inorder (by_id cat))" by (simp add: cat_inv_def tree_ok_def)
  from assms(2) have "map_of (inorder (by_id cat)) (book_id r) = None"
    by (simp add: search_by_id_def search_ok [OF srt])
  then have absent: "book_id r \<notin> fst ` set (inorder (by_id cat))"
    by (simp add: map_of_eq_None_iff)
  let ?P = "\<lambda>x::(string \<times> int) \<times> book. snd (fst x) \<noteq> book_id r"
  from add_book_ok [OF inv, of r] absent obtain c1 where
    c1: "add_book r cat = Some (''inserted'', c1)" "cat_inv c1"
    "inorder (by_id c1) = put_entry (book_id r) r (inorder (by_id cat))"
    "inorder (by_title c1) = put_entry (title_key r) r (filter ?P (inorder (by_title cat)))"
    by auto
  have present: "book_id r \<in> fst ` set (inorder (by_id c1))"
    unfolding c1(3) by (force simp: set_put_entry)
  from add_book_ok [OF c1(2), of r] present obtain c2 where
    c2: "add_book r c1 = Some (''updated'', c2)"
    "inorder (by_id c2) = put_entry (book_id r) r (inorder (by_id c1))"
    "inorder (by_title c2) = put_entry (title_key r) r (filter ?P (inorder (by_title c1)))"
    by auto
  have "inorder (by_id c2) = inorder (by_id c1)"
    unfolding c2(2) c1(3) by (rule put_entry_idem)
  moreover have "inorder (by_title c2) = inorder (by_title c1)"
    unfolding c2(3) c1(4) by (simp add: put_entry_filter_put_entry)
  ultimately show ?thesis using c1(1) c2(1) by blast
qed

theorem add_book_twice_witness:
  "run [AddBook \<lparr>book_id = 7, title = ''Zed'', author = ''y'', year = 1999, copies = 2\<rparr>] new_catalog
     = Some \<lparr>by_id = Node NIL 7 \<lparr>book_id = 7, title = ''Zed'', author = ''y'', year = 1999, copies = 2\<rparr>
                        BLACK NIL,
             by_title = Node NIL (''zed'', 7)
                        \<lparr>book_id = 7, title = ''Zed'', author = ''y'', year = 1999, copies = 2\<rparr>
                        BLACK NIL\<rparr> \<and>
   search_by_id
     \<lparr>by_id = Node NIL 7 \<lparr>book_id = 7, title = ''Zed'', author = ''y'', year = 1999, copies = 2\<rparr>
                 BLACK NIL,
      by_title = Node NIL (''zed'', 7)
                 \<lparr>book_id = 7, title = ''Zed'', author = ''y'', year = 1999, copies = 2\<rparr>
                 BLACK NIL\<rparr>
     (book_id \<lparr>book_id = 3, title = ''Abc'', author = ''x'', year = 2001, copies = 1\<rparr>) = None \<and>
   (\<exists>c1 c2.
      add_book \<lparr>book_id = 3, title = ''Abc'', author = ''x'', year = 2001, copies = 1\<rparr>
        \<lparr>by_id = Node NIL 7 \<lparr>book_id = 7, title = ''Zed'', author = ''y'', year = 1999, copies = 2\<rparr>
                    BLACK NIL,
         by_title = Node NIL (''zed'', 7)
                    \<lparr>book_id = 7, title = ''Zed'', author = ''y'', year = 1999, copies = 2\<rparr>
                    BLACK NIL\<rparr> = Some (''inserted'', c1) \<and>
      add_book \<lparr>book_id = 3, title = ''Abc'', author = ''x'', year = 2001, copies = 1\<rparr> c1
        = Some (''updated'', c2) \<and>
      inorder (by_id c2) = inorder (by_id c1) \<and>
      inorder (by_title c2) = inorder (by_title c1))"
proof -
  let ?b7 = "\<lparr>book_id = 7, title = ''Zed'', author = ''y'', year = 1999, copies = 2\<rparr>"
  let ?b3 = "\<lparr>book_id = 3, title = ''Abc'', author = ''x'', year = 2001, copies = 1\<rparr>"
  let ?cat = "\<lparr>by_id = Node NIL 7 ?b7 BLACK NIL, by_title = Node NIL (''zed'', 7) ?b7 BLACK NIL\<rparr>"
  have h1: "run [AddBook ?b7] new_catalog = Some ?cat" by code_simp
  have h2: "search_by_id ?cat (book_id ?b3) = None" by code_simp
  from add_book_twice [OF h1 h2] h1 h2 show ?thesis by blast
qed

text \<open>
  C6.  In a catalog reached by any sequence of operations, \<^verbatim>\<open>delete_by_id\<close> of an
  identifier that is not a key of \<^verbatim>\<open>by_id\<close> returns \<open>False\<close> as an ordinary result and
  leaves the catalog, both indices, as it was.
\<close>

theorem delete_by_id_absent:
  assumes "run ops new_catalog = Some cat" and "bid \<notin> id_index_ids cat"
  shows "delete_by_id bid cat = Some (False, cat)"
proof -
  from run_ok [OF cat_inv_new, of ops] assms(1) have inv: "cat_inv cat" by auto
  from delete_by_id_ok [OF inv, of bid] assms(2) show ?thesis
    by (auto simp: id_index_ids_def)
qed

theorem delete_by_id_absent_witness:
  "run [AddBook \<lparr>book_id = 7, title = ''Zed'', author = ''y'', year = 1999, copies = 2\<rparr>] new_catalog
     = Some \<lparr>by_id = Node NIL 7 \<lparr>book_id = 7, title = ''Zed'', author = ''y'', year = 1999, copies = 2\<rparr>
                        BLACK NIL,
             by_title = Node NIL (''zed'', 7)
                        \<lparr>book_id = 7, title = ''Zed'', author = ''y'', year = 1999, copies = 2\<rparr>
                        BLACK NIL\<rparr> \<and>
   8 \<notin> id_index_ids
     \<lparr>by_id = Node NIL 7 \<lparr>book_id = 7, title = ''Zed'', author = ''y'', year = 1999, copies = 2\<rparr>
                 BLACK NIL,
      by_title = Node NIL (''zed'', 7)
                 \<lparr>book_id = 7, title = ''Zed'', author = ''y'', year = 1999, copies = 2\<rparr>
                 BLACK NIL\<rparr> \<and>
   delete_by_id 8
     \<lparr>by_id = Node NIL 7 \<lparr>book_id = 7, title = ''Zed'', author = ''y'', year = 1999, copies = 2\<rparr>
                 BLACK NIL,
      by_title = Node NIL (''zed'', 7)
                 \<lparr>book_id = 7, title = ''Zed'', author = ''y'', year = 1999, copies = 2\<rparr>
                 BLACK NIL\<rparr>
     = Some (False,
        \<lparr>by_id = Node NIL 7 \<lparr>book_id = 7, title = ''Zed'', author = ''y'', year = 1999, copies = 2\<rparr>
                 BLACK NIL,
         by_title = Node NIL (''zed'', 7)
                 \<lparr>book_id = 7, title = ''Zed'', author = ''y'', year = 1999, copies = 2\<rparr>
                 BLACK NIL\<rparr>)"
proof -
  let ?b7 = "\<lparr>book_id = 7, title = ''Zed'', author = ''y'', year = 1999, copies = 2\<rparr>"
  let ?cat = "\<lparr>by_id = Node NIL 7 ?b7 BLACK NIL, by_title = Node NIL (''zed'', 7) ?b7 BLACK NIL\<rparr>"
  have h1: "run [AddBook ?b7] new_catalog = Some ?cat" by code_simp
  have h2: "8 \<notin> id_index_ids ?cat" by (simp add: id_index_ids_def)
  from delete_by_id_absent [OF h1 h2] h1 h2 show ?thesis by blast
qed

text \<open>
  C7 (evaluated at the input where the code departs from it).  The catalog holds the
  single record with identifier \<open>- 2 ^ 63\<close> and the empty title;
  \<^verbatim>\<open>search_by_title_prefix("")\<close> returns the empty list, not the whole catalog, for the
  same reason: the anchor \<^verbatim>\<open>("", -sys.maxsize)\<close> lies after the key \<open>([], - 2 ^ 63)\<close>.
\<close>

theorem search_by_title_prefix_empty_misses_least_id:
  "(case add_book \<lparr>book_id = - (2 ^ 63), title = [], author = [], year = 0, copies = 1\<rparr>
           new_catalog of
      None \<Rightarrow> False
    | Some (status, cat) \<Rightarrow>
        list_all_by_title cat =
          [\<lparr>book_id = - (2 ^ 63), title = [], author = [], year = 0, copies = 1\<rparr>] \<and>
        search_by_title_prefix cat [] = [])"
  by code_simp

text \<open>
  C8.  From the empty catalog, \<^verbatim>\<open>add_book\<close> of a record 101 titled "Title A" reports
  "inserted" and \<^verbatim>\<open>add_book\<close> of a record 101 titled "Title B" reports "updated"; after
  both, \<^verbatim>\<open>search_by_id(101)\<close> is the second record, \<^verbatim>\<open>search_by_title_exact("title a")\<close> is
  empty and \<^verbatim>\<open>search_by_title_exact("title b")\<close> is exactly the second record, whatever
  the other fields of the two records are.
\<close>

theorem retitle_scenario:
  fixes a1 a2 :: string and y1 y2 c1 c2 :: int
  defines "bA \<equiv> \<lparr>book_id = 101, title = ''Title A'', author = a1, year = y1, copies = c1\<rparr>"
      and "bB \<equiv> \<lparr>book_id = 101, title = ''Title B'', author = a2, year = y2, copies = c2\<rparr>"
  shows "(case add_book bA new_catalog of
            None \<Rightarrow> False
          | Some (s1, cat1) \<Rightarrow>
              (case add_book bB cat1 of
                 None \<Rightarrow> False
               | Some (s2, cat2) \<Rightarrow>
                   s1 = ''inserted'' \<and> s2 = ''updated'' \<and>
                   search_by_id cat2 101 = Some bB \<and>
                   search_by_title_exact cat2 ''title a'' = [] \<and>
                   search_by_title_exact cat2 ''title b'' = [bB]))"
  unfolding bA_def bB_def
  by code_simp




text \<open>
  A record with the title \<^verbatim>\<open>null\<close> that repeats an identifier: \<^verbatim>\<open>AttributeError\<close>, with the
  record in \<^verbatim>\<open>by_id\<close> and the earlier title entry of the identifier deleted.  A record with
  the year \<^verbatim>\<open>null\<close>: \<^verbatim>\<open>TypeError\<close>, with the catalog of the record before.
\<close>

lemma load_from_file_null_title_example:
  "load_from_file (\<lambda>v. Inl ValueError)
       [Object \<lparr>d_book_id = Some 1, d_title = Some (JStr ''A''), d_author = None, d_year = None, d_copies = None\<rparr>,
        Object \<lparr>d_book_id = Some 1, d_title = Some JNull, d_author = None, d_year = None, d_copies = None\<rparr>]
       new_catalog
     = Some (Inl AttributeError,
         \<lparr>r_by_id = Node NIL 1
            \<lparr>r_book_id = 1, r_title = JNull, r_author = [], r_year = 0, r_copies = 1\<rparr> BLACK NIL,
          r_by_title = NIL\<rparr>)"
  by code_simp

lemma load_from_file_year_example:
  "load_from_file (\<lambda>v. Inl ValueError)
       [Object \<lparr>d_book_id = Some 1, d_title = Some (JStr ''A''), d_author = None, d_year = None, d_copies = None\<rparr>,
        Object \<lparr>d_book_id = Some 2, d_title = Some (JStr ''B''), d_author = None,
                d_year = Some JNull, d_copies = None\<rparr>]
       new_catalog
     = Some (Inl TypeError,
         \<lparr>r_by_id = Node NIL 1
            \<lparr>r_book_id = 1, r_title = JStr ''A'', r_author = [], r_year = 0, r_copies = 1\<rparr> BLACK NIL,
          r_by_title = Node NIL (''a'', 1)
            \<lparr>r_book_id = 1, r_title = JStr ''A'', r_author = [], r_year = 0, r_copies = 1\<rparr> BLACK NIL\<rparr>)"
  by code_simp

text \<open>
  C10.  After every sequence of \<^verbatim>\<open>add_book\<close>, \<^verbatim>\<open>delete_by_id\<close> and clear operations from
  the empty catalog, \<^verbatim>\<open>list_all_by_id()\<close> and \<^verbatim>\<open>list_all_by_title()\<close> have the same length
  and the same records with the same multiplicities, and for every identifier of
  \<^verbatim>\<open>by_id\<close> the record that \<^verbatim>\<open>search_by_id\<close> returns is the value that \<^verbatim>\<open>by_title\<close> stores
  under the key made of that record's lower-cased title and the identifier.
\<close>

theorem listings_agree:
  "\<exists>cat. run ops new_catalog = Some cat \<and>
     length (list_all_by_id cat) = length (list_all_by_title cat) \<and>
     mset (list_all_by_id cat) = mset (list_all_by_title cat) \<and>
     list_all (\<lambda>x. search_by_id cat (fst x) = Some (snd x) \<and>
                    search (by_title cat) (lower (title (snd x)), fst x) = Some (snd x))
       (inorder (by_id cat))"
proof -
  from run_ok [OF cat_inv_new, of ops] obtain cat where
    r: "run ops new_catalog = Some cat" and inv: "cat_inv cat" by blast
  let ?S = "inorder (by_id cat)" and ?T = "inorder (by_title cat)"
  from inv have srtT: "sorted_keys ?T"
    and ids: "\<forall>x \<in> set ?S. book_id (snd x) = fst x"
    and img: "set ?T = (\<lambda>x. (title_key (snd x), snd x)) ` set ?S"
    by (simp_all add: cat_inv_def tree_ok_def)
  have m: "mset (list_all_by_id cat) = mset (list_all_by_title cat)"
    using cat_inv_listings [OF inv] by simp
  then have l: "length (list_all_by_id cat) = length (list_all_by_title cat)"
    by (rule mset_eq_length)
  have "list_all (\<lambda>x. search_by_id cat (fst x) = Some (snd x) \<and>
                    search (by_title cat) (lower (title (snd x)), fst x) = Some (snd x)) ?S"
    unfolding list_all_iff
  proof
    fix x assume x: "x \<in> set ?S"
    then have "(title_key (snd x), snd x) \<in> set ?T" using img by auto
    then have "map_of ?T (title_key (snd x)) = Some (snd x)"
      using sorted_keys_distinct [OF srtT] by simp
    moreover from x ids have "title_key (snd x) = (lower (title (snd x)), fst x)"
      by (simp add: title_key_def)
    ultimately show "search_by_id cat (fst x) = Some (snd x) \<and>
                    search (by_title cat) (lower (title (snd x)), fst x) = Some (snd x)"
      using cat_inv_search_by_id [OF inv x] by (simp add: search_ok [OF srtT])
  qed
  then show ?thesis using r m l by (intro exI [of _ cat] conjI)
qed

theorem listings_agree_witness:
  "\<exists>cat. run [AddBook \<lparr>book_id = 101, title = ''Title A'', author = ''x'', year = 2001, copies = 1\<rparr>,
               AddBook \<lparr>book_id = 7, title = ''Zed'', author = ''y'', year = 1999, copies = 2\<rparr>,
               AddBook \<lparr>book_id = 101, title = ''Title B'', author = ''x'', year = 2001, copies = 1\<rparr>,
               DeleteById 7,
               AddBook \<lparr>book_id = 5, title = ''Five'', author = ''z'', year = 2005, copies = 5\<rparr>]
           new_catalog = Some cat \<and>
     length (list_all_by_id cat) = length (list_all_by_title cat) \<and>
     mset (list_all_by_id cat) = mset (list_all_by_title cat) \<and>
     list_all (\<lambda>x. search_by_id cat (fst x) = Some (snd x) \<and>
                    search (by_title cat) (lower (title (snd x)), fst x) = Some (snd x))
       (inorder (by_id cat))"
  by (rule listings_agree)

end
